theory Spec2Isabelle
  imports Complex_Main
begin

section \<open>Bytes and the regular expressions of the command catalogue\<close>

text \<open>
  Go byte slices and strings are modelled as \<open>string\<close> (lists of 8-bit characters).
  Every pattern compiled in \<^verbatim>\<open>MT_SICS.go\<close> is a flat sequence of single-byte atoms
  (a literal byte or a bracket class of byte ranges), each taken once, one-or-more
  times (\<^verbatim>\<open>+\<close>, greedy) or at most once (\<^verbatim>\<open>?\<close>, greedy), with capture
  parentheses around runs of atoms. The abstract syntax below covers exactly that
  fragment; \<open>rx_String\<close> prints a pattern back to the literal in the source. Go's
  matcher reads its input as UTF-8; all atoms here are ASCII, which no byte of a longer
  or invalid sequence can match, so matching byte by byte gives the same result.
\<close>

datatype atom = Chr char | Cls "(char \<times> char) list"

datatype item = One atom | Many atom | Maybe atom | Open | Close

type_synonym regex = "item list"

definition in_range :: "char \<Rightarrow> char \<times> char \<Rightarrow> bool" where
  "in_range x r = ((of_char (fst r) :: nat) \<le> of_char x \<and> (of_char x :: nat) \<le> of_char (snd r))"

fun atom_ok :: "atom \<Rightarrow> char \<Rightarrow> bool" where
  "atom_ok (Chr c) x = (x = c)"
| "atom_ok (Cls rs) x = list_ex (in_range x) rs"

text \<open>
  \<open>here p s\<close> matches the pattern at the very start of \<open>s\<close>, trying the alternatives
  of each quantifier in the order of Go's leftmost-first semantics (a greedy quantifier
  first takes the byte, then gives it back). It returns the text still unread at every
  parenthesis passed, followed by the text unread at the end of the match.
\<close>

fun here :: "regex \<Rightarrow> string \<Rightarrow> string list option" where
  "here [] s = Some [s]"
| "here (Open # p) s = map_option ((#) s) (here p s)"
| "here (Close # p) s = map_option ((#) s) (here p s)"
| "here (One a # p) [] = None"
| "here (One a # p) (x # s) = (if atom_ok a x then here p s else None)"
| "here (Maybe a # p) [] = here p []"
| "here (Maybe a # p) (x # s) =
     (if atom_ok a x
      then (case here p s of Some m \<Rightarrow> Some m | None \<Rightarrow> here p (x # s))
      else here p (x # s))"
| "here (Many a # p) [] = None"
| "here (Many a # p) (x # s) =
     (if atom_ok a x
      then (case here (Many a # p) s of Some m \<Rightarrow> Some m | None \<Rightarrow> here p s)
      else None)"

text \<open>The text between two marks: what was read from \<open>from\<close> until \<open>to\<close> was left.\<close>

definition between :: "string \<Rightarrow> string \<Rightarrow> string" where
  "between from to = take (length from - length to) from"

fun groups :: "string list \<Rightarrow> string list" where
  "groups (opn # cls # ms) = between opn cls # groups ms"
| "groups ms = []"

text \<open>
  \<open>find_rx\<close> is the unanchored search: the leftmost position where the pattern matches.
  Its result is the slice of \<^verbatim>\<open>FindStringSubmatch\<close>: the whole match, then one
  entry per capture group.
\<close>

fun find_rx :: "regex \<Rightarrow> string \<Rightarrow> string list option" where
  "find_rx p [] = map_option (\<lambda>m. between [] (last m) # groups m) (here p [])"
| "find_rx p (x # s) =
     (case here p (x # s) of
        Some m \<Rightarrow> Some (between (x # s) (last m) # groups m)
      | None \<Rightarrow> find_rx p s)"

definition Match :: "regex \<Rightarrow> string \<Rightarrow> bool" where
  "Match p b = (find_rx p b \<noteq> None)"

text \<open>\<^verbatim>\<open>FindStringSubmatch\<close> returns a nil slice (length 0) when nothing matches.\<close>

definition FindStringSubmatch :: "regex \<Rightarrow> string \<Rightarrow> string list" where
  "FindStringSubmatch p s = (case find_rx p s of None \<Rightarrow> [] | Some r \<Rightarrow> r)"

subsection \<open>Printing a pattern\<close>

definition meta_chars :: "char list" where
  "meta_chars = CHR 0x5C # ''.+*?()|[]{}^$''"

fun range_String :: "char \<times> char \<Rightarrow> string" where
  "range_String (lo, hi) = (if lo = hi then [lo] else [lo, CHR ''-'', hi])"

fun atom_String :: "atom \<Rightarrow> string" where
  "atom_String (Chr c) = (if c \<in> set meta_chars then [CHR 0x5C, c] else [c])"
| "atom_String (Cls rs) = ''['' @ concat (map range_String rs) @ '']''"

fun item_String :: "item \<Rightarrow> string" where
  "item_String (One a) = atom_String a"
| "item_String (Many a) = atom_String a @ ''+''"
| "item_String (Maybe a) = atom_String a @ ''?''"
| "item_String Open = ''(''"
| "item_String Close = '')''"

definition rx_String :: "regex \<Rightarrow> string" where
  "rx_String p = concat (map item_String p)"

definition lit :: "string \<Rightarrow> regex" where
  "lit s = map (\<lambda>c. One (Chr c)) s"

section \<open>The transport\<close>

text \<open>
  The connection is an \<^verbatim>\<open>io.ReadWriteCloser\<close> supplied by the caller. It is modelled
  as a scripted device: \<open>reads c k\<close> says what the \<open>k\<close>-th call of \<^verbatim>\<open>Read\<close> does
  (it never returns, it delivers bytes after some nanoseconds, or it fails after some
  nanoseconds), \<open>writes c k\<close> says whether the \<open>k\<close>-th call of \<^verbatim>\<open>Write\<close> fails.
  \<open>wlog\<close> records the payload of every \<^verbatim>\<open>Write\<close> call in order, \<open>clock\<close> is the
  wall clock in nanoseconds; only reads take time.
\<close>

datatype error =
    IOError nat
  | Errorf string
  | ErrSyntax string
  | ErrRange string

datatype panic = IndexOutOfRange nat nat

datatype 'a outcome = Returned 'a | Panicked panic

datatype read_event = Blocks | Delivers nat string | Fails nat error

record conn =
  reads :: "nat \<Rightarrow> read_event"
  writes :: "nat \<Rightarrow> error option"
  nread :: nat
  wlog :: "string list"
  clock :: nat

text \<open>
  \<^verbatim>\<open>connection.Read(buf)\<close> copies the delivered bytes to the front of \<open>buf\<close> (at
  most \<open>length buf\<close> of them) and leaves the rest of \<open>buf\<close> as it was.
\<close>

definition overwrite :: "string \<Rightarrow> string \<Rightarrow> string" where
  "overwrite buf bs = take (length buf) bs @ drop (length bs) buf"

definition Read :: "conn \<Rightarrow> string \<Rightarrow> ((error option \<times> string) \<times> conn) option" where
  "Read c buf =
     (case reads c (nread c) of
        Blocks \<Rightarrow> None
      | Delivers d bs \<Rightarrow>
          Some ((None, overwrite buf bs), c\<lparr>nread := Suc (nread c), clock := clock c + d\<rparr>)
      | Fails d e \<Rightarrow>
          Some ((Some e, buf), c\<lparr>nread := Suc (nread c), clock := clock c + d\<rparr>))"

definition Write :: "conn \<Rightarrow> string \<Rightarrow> error option \<times> conn" where
  "Write c bs = (writes c (length (wlog c)), c\<lparr>wlog := wlog c @ [bs]\<rparr>)"

definition MaxInt64 :: int where
  "MaxInt64 = 2 ^ 63 - 1"

definition Second :: int where
  "Second = 1000000000"

text \<open>\<^verbatim>\<open>time.Since(start)\<close>: a \<^verbatim>\<open>Duration\<close>, saturating at the largest \<^verbatim>\<open>int64\<close>.\<close>

definition Since :: "conn \<Rightarrow> nat \<Rightarrow> int" where
  "Since c start = min (int (clock c) - int start) MaxInt64"

abbreviation NUL :: char where
  "NUL \<equiv> CHR 0x00"

definition CRLF :: string where
  "CRLF = [CHR 0x0D, CHR 0x0A]"

text \<open>\<^verbatim>\<open>make([]byte, 128)\<close>\<close>

definition make_buf :: string where
  "make_buf = replicate 128 NUL"

section \<open>DirectCommand\<close>

text \<open>
  The read loop of \<^verbatim>\<open>DirectCommand\<close>. A loop that never ends, or a read that never
  returns, is the value \<open>None\<close>. The loop returns the error of a failed read (the
  function then returns \<^verbatim>\<open>nil, err\<close>), or the final \<open>match\<close> flag and buffer.
\<close>

partial_function (option) await ::
  "regex \<Rightarrow> nat \<Rightarrow> bool \<Rightarrow> string \<Rightarrow> conn \<Rightarrow> ((error + bool \<times> string) \<times> conn) option"
where
  "await regex start match buf c =
     (if \<not> match \<and> Since c start < 5 * Second
      then (case Read c buf of
              None \<Rightarrow> None
            | Some ((Some err, buf'), c') \<Rightarrow> Some (Inl err, c')
            | Some ((None, buf'), c') \<Rightarrow> await regex start (Match regex buf') buf' c')
      else Some (Inr (match, buf), c))"

definition timed_out :: "string \<Rightarrow> regex \<Rightarrow> string \<Rightarrow> error" where
  "timed_out command regex buf =
     Errorf (''command '' @ [CHR 0x27] @ command @ [CHR 0x27] @ '' timed-out, want: ''
             @ rx_String regex @ '', got: '' @ buf)"

text \<open>The result is the pair \<^verbatim>\<open>([]byte, error)\<close>; \<open>None\<close> in a component is \<^verbatim>\<open>nil\<close>.\<close>

definition DirectCommand ::
  "conn \<Rightarrow> string \<Rightarrow> regex \<Rightarrow> ((string option \<times> error option) \<times> conn) option"
where
  "DirectCommand connection command regex =
     (case Write connection (command @ CRLF) of
        (Some err, c1) \<Rightarrow> Some ((None, Some err), c1)
      | (None, c1) \<Rightarrow>
          (case await regex (clock c1) False make_buf c1 of
             None \<Rightarrow> None
           | Some (Inl err, c2) \<Rightarrow> Some ((None, Some err), c2)
           | Some (Inr (match, buf), c2) \<Rightarrow>
               if \<not> match then Some ((Some buf, Some (timed_out command regex buf)), c2)
               else Some ((Some buf, None), c2)))"

section \<open>Numbers as text\<close>

text \<open>
  A finite \<^verbatim>\<open>float64\<close> is represented by the rational number it denotes (negative
  zero, infinities and NaN have no representative).

  \<open>FormatFloat_f x prec\<close> is \<^verbatim>\<open>strconv.FormatFloat(x, 'f', prec, 64)\<close>: the exact
  value of \<open>x\<close> rounded to \<open>prec\<close> decimals, the nearest one and the even one at a tie,
  printed in positional notation with a minus sign for a negative \<open>x\<close>.
\<close>

definition digit_char :: "nat \<Rightarrow> char" where
  "digit_char d = ''0123456789'' ! d"

fun Itoa_nat :: "nat \<Rightarrow> string" where
  "Itoa_nat n = (if n < 10 then [digit_char n] else Itoa_nat (n div 10) @ [digit_char (n mod 10)])"

declare Itoa_nat.simps [simp del]

text \<open>\<^verbatim>\<open>strconv.Itoa\<close>\<close>

definition Itoa :: "int \<Rightarrow> string" where
  "Itoa i = (if i < 0 then ''-'' @ Itoa_nat (nat (- i)) else Itoa_nat (nat i))"

definition round_half_even :: "rat \<Rightarrow> nat" where
  "round_half_even y =
     (let q = nat \<lfloor>y\<rfloor>; f = y - of_int \<lfloor>y\<rfloor>
      in if f < 1 / 2 then q else if 1 / 2 < f then Suc q else if even q then q else Suc q)"

definition pad_zeros :: "nat \<Rightarrow> string \<Rightarrow> string" where
  "pad_zeros w s = replicate (w - length s) CHR ''0'' @ s"

definition scaled :: "rat \<Rightarrow> nat \<Rightarrow> nat" where
  "scaled x prec = round_half_even (\<bar>x\<bar> * 10 ^ prec)"

definition FormatFloat_f :: "rat \<Rightarrow> nat \<Rightarrow> string" where
  "FormatFloat_f x prec =
     (if x < 0 then ''-'' else [])
     @ Itoa_nat (scaled x prec div 10 ^ prec)
     @ (if prec = 0 then [] else ''.'' @ pad_zeros prec (Itoa_nat (scaled x prec mod 10 ^ prec)))"

text \<open>
  \<^verbatim>\<open>strconv.ParseFloat(s, 64)\<close> on plain decimal text: an optional sign, digits with
  at most one decimal point and at least one digit. Such text is rejected only when
  its value is too large for a \<^verbatim>\<open>float64\<close>, i.e. at least half a unit in the last
  place above the largest one; otherwise the result is the \<^verbatim>\<open>float64\<close> nearest to the
  value, for which the model keeps the value itself. Any other text is reported as a
  syntax error here: the exponent, hexadecimal, infinity and NaN spellings that Go also
  accepts all contain a letter, and the callers only pass text captured by
  \<^verbatim>\<open>-?[0-9]+\.[0-9]+\<close>.
\<close>

definition is_digit :: "char \<Rightarrow> bool" where
  "is_digit c = in_range c (CHR ''0'', CHR ''9'')"

definition digit_val :: "char \<Rightarrow> nat" where
  "digit_val c = of_char c - 48"

definition digits_val :: "string \<Rightarrow> nat" where
  "digits_val s = foldl (\<lambda>n c. 10 * n + digit_val c) 0 s"

definition float64_overflow :: rat where
  "float64_overflow = 2 ^ 1024 - 2 ^ 970"

definition ParseFloat :: "string \<Rightarrow> error + rat" where
  "ParseFloat s =
     (let neg = (take 1 s = ''-'');
          t = (if take 1 s = ''-'' \<or> take 1 s = ''+'' then drop 1 s else s);
          ip = takeWhile is_digit t;
          r = dropWhile is_digit t;
          fp = (if take 1 r = ''.'' then takeWhile is_digit (drop 1 r) else []);
          rest = (if take 1 r = ''.'' then dropWhile is_digit (drop 1 r) else r);
          v = of_nat (digits_val (ip @ fp)) / 10 ^ length fp
      in if rest \<noteq> [] \<or> (ip = [] \<and> fp = []) then Inl (ErrSyntax s)
         else if float64_overflow \<le> v then Inl (ErrRange s)
         else Inr (if neg then - v else v))"

text \<open>Indexing a slice panics outside its length.\<close>

definition index :: "'a list \<Rightarrow> nat \<Rightarrow> 'a outcome" where
  "index xs i = (if i < length xs then Returned (xs ! i) else Panicked (IndexOutOfRange i (length xs)))"

section \<open>The command catalogue\<close>

text \<open>The fields of \<^verbatim>\<open>Measurement\<close> are \<^verbatim>\<open>Weight\<close> and \<^verbatim>\<open>Unit\<close>.\<close>

record Measurement =
  mWeight :: rat
  mUnit :: string

definition digit :: atom where
  "digit = Cls [(CHR ''0'', CHR ''9'')]"

definition letter :: atom where
  "letter = Cls [(CHR ''a'', CHR ''z''), (CHR ''A'', CHR ''Z'')]"

definition AL :: atom where
  "AL = Cls [(CHR ''A'', CHR ''A''), (CHR ''L'', CHR ''L'')]"

text \<open>The shared tail \<^verbatim>\<open> +(-?[0-9]+\.[0-9]+) ([a-zA-Z]+)\<close> of the three weight patterns.\<close>

definition value_unit :: regex where
  "value_unit =
     [Many (Chr CHR '' ''),
      Open, Maybe (Chr CHR ''-''), Many digit, One (Chr CHR ''.''), Many digit, Close,
      One (Chr CHR '' ''),
      Open, Many letter, Close]"

text \<open>
  An operation that only awaits an acknowledgement returns the error of
  \<^verbatim>\<open>DirectCommand\<close> (\<open>None\<close> for \<^verbatim>\<open>nil\<close>) and the connection afterwards.
\<close>

definition acked :: "conn \<Rightarrow> string \<Rightarrow> regex \<Rightarrow> (error option \<times> conn) option" where
  "acked connection command regex =
     (case DirectCommand connection command regex of
        None \<Rightarrow> None
      | Some ((_, err), c') \<Rightarrow> Some (err, c'))"

definition SetTarget ::
  "conn \<Rightarrow> rat \<Rightarrow> string \<Rightarrow> rat \<Rightarrow> rat \<Rightarrow> bool \<Rightarrow> (error option \<times> conn) option"
where
  "SetTarget connection target unit upperTolerance lowerTolerance relativeTolerance =
     (case DirectCommand connection (''A10 0 '' @ FormatFloat_f target 2 @ '' '' @ unit @ [])
             (lit ''A10 A'') of
        None \<Rightarrow> None
      | Some ((_, Some err), c1) \<Rightarrow> Some (Some err, c1)
      | Some ((_, None), c1) \<Rightarrow>
          (case DirectCommand c1
                  (''A10 1 '' @ FormatFloat_f upperTolerance 2 @ '' ''
                   @ (if relativeTolerance then ''%'' else unit) @ [])
                  (lit ''A10 A'') of
             None \<Rightarrow> None
           | Some ((_, Some err), c2) \<Rightarrow> Some (Some err, c2)
           | Some ((_, None), c2) \<Rightarrow>
               acked c2
                 (''A10 2 '' @ FormatFloat_f lowerTolerance 2 @ '' ''
                  @ (if relativeTolerance then ''%'' else unit) @ [])
                 (lit ''A10 A'')))"

definition quote :: string where
  "quote = [CHR 0x22]"

definition SetResultID :: "conn \<Rightarrow> string \<Rightarrow> string \<Rightarrow> (error option \<times> conn) option" where
  "SetResultID connection label val =
     acked connection (''A36 1 '' @ quote @ label @ quote @ '' '' @ quote @ val @ quote)
       (lit ''A36 A'')"

definition SetTaskID :: "conn \<Rightarrow> string \<Rightarrow> string \<Rightarrow> (error option \<times> conn) option" where
  "SetTaskID connection label val =
     acked connection (''A37 1 '' @ quote @ label @ quote @ '' '' @ quote @ val @ quote)
       (lit ''A37 A'')"

definition SetMessage :: "conn \<Rightarrow> string \<Rightarrow> (error option \<times> conn) option" where
  "SetMessage connection message =
     acked connection (''D '' @ quote @ message @ quote) (lit ''D A'')"

definition ShowWeight :: "conn \<Rightarrow> (error option \<times> conn) option" where
  "ShowWeight connection = acked connection ''DW'' (lit ''DW A'')"

definition unitRegex :: regex where
  "unitRegex = lit ''M21 A '' @ [One digit] @ lit '' '' @ [Open, Many letter, Close]"

definition GetUnit :: "conn \<Rightarrow> int \<Rightarrow> ((string \<times> error option) outcome \<times> conn) option" where
  "GetUnit connection channel =
     (case DirectCommand connection (''M21 '' @ Itoa channel) unitRegex of
        None \<Rightarrow> None
      | Some ((_, Some err), c') \<Rightarrow> Some (Returned ([], Some err), c')
      | Some ((buf, None), c') \<Rightarrow>
          (case index (FindStringSubmatch unitRegex (case buf of None \<Rightarrow> [] | Some b \<Rightarrow> b)) 1 of
             Panicked p \<Rightarrow> Some (Panicked p, c')
           | Returned r1 \<Rightarrow> Some (Returned (r1, None), c')))"

definition SetUnit :: "conn \<Rightarrow> string \<Rightarrow> int \<Rightarrow> (error option \<times> conn) option" where
  "SetUnit connection unit channel =
     acked connection (''M21 '' @ Itoa channel @ '' '' @ unit) (lit ''M21 A'')"

definition powerRegex :: regex where
  "powerRegex = lit ''PWR '' @ [One AL]"

definition PowerOn :: "conn \<Rightarrow> (error option \<times> conn) option" where
  "PowerOn connection = acked connection ''PWR 1'' powerRegex"

definition PowerOff :: "conn \<Rightarrow> (error option \<times> conn) option" where
  "PowerOff connection = acked connection ''PWR 0'' powerRegex"

text \<open>
  \<^verbatim>\<open>Weight\<close> and \<^verbatim>\<open>Tare\<close> share their body after \<^verbatim>\<open>DirectCommand\<close>: the
  submatches of the buffer, the number in the first and the unit in the second. The
  zero \<^verbatim>\<open>Measurement{}\<close> accompanies every error.
\<close>

definition zero_Measurement :: Measurement where
  "zero_Measurement = \<lparr>mWeight = 0, mUnit = []\<rparr>"

definition measure_cmd ::
  "conn \<Rightarrow> string \<Rightarrow> regex \<Rightarrow> ((Measurement \<times> error option) outcome \<times> conn) option"
where
  "measure_cmd connection command regex =
     (case DirectCommand connection command regex of
        None \<Rightarrow> None
      | Some ((_, Some err), c') \<Rightarrow> Some (Returned (zero_Measurement, Some err), c')
      | Some ((buf, None), c') \<Rightarrow>
          (let result = FindStringSubmatch regex (case buf of None \<Rightarrow> [] | Some b \<Rightarrow> b)
           in case index result 1 of
                Panicked p \<Rightarrow> Some (Panicked p, c')
              | Returned r1 \<Rightarrow>
                  (case ParseFloat r1 of
                     Inl err \<Rightarrow> Some (Returned (zero_Measurement, Some err), c')
                   | Inr weightValue \<Rightarrow>
                       (case index result 2 of
                          Panicked p \<Rightarrow> Some (Panicked p, c')
                        | Returned r2 \<Rightarrow>
                            Some (Returned (\<lparr>mWeight = weightValue, mUnit = r2\<rparr>, None), c')))))"

definition weightRegexS :: regex where
  "weightRegexS = lit ''S S'' @ value_unit"

definition Weight :: "conn \<Rightarrow> ((Measurement \<times> error option) outcome \<times> conn) option" where
  "Weight connection = measure_cmd connection ''S'' weightRegexS"

definition tareRegex :: regex where
  "tareRegex = lit ''T S'' @ value_unit"

definition Tare :: "conn \<Rightarrow> ((Measurement \<times> error option) outcome \<times> conn) option" where
  "Tare connection = measure_cmd connection ''T'' tareRegex"

text \<open>
  \<^verbatim>\<open>GetDoorStatus\<close> compiles the pattern \<^verbatim>\<open>WS\<close> and sends the command text
  \<^verbatim>\<open>WS ([0-9])\<close>.
\<close>

definition GetDoorStatus :: "conn \<Rightarrow> ((string \<times> error option) outcome \<times> conn) option" where
  "GetDoorStatus connection =
     (case DirectCommand connection ''WS ([0-9])'' (lit ''WS'') of
        None \<Rightarrow> None
      | Some ((_, Some err), c') \<Rightarrow> Some (Returned ([], Some err), c')
      | Some ((buf, None), c') \<Rightarrow>
          (case index (FindStringSubmatch (lit ''WS'') (case buf of None \<Rightarrow> [] | Some b \<Rightarrow> b)) 1 of
             Panicked p \<Rightarrow> Some (Panicked p, c')
           | Returned r1 \<Rightarrow> Some (Returned (r1, None), c')))"

definition doorRegex :: regex where
  "doorRegex = lit ''WS '' @ [One AL]"

definition CloseAllDoors :: "conn \<Rightarrow> (error option \<times> conn) option" where
  "CloseAllDoors connection = acked connection ''WS 0'' doorRegex"

definition OpenRightDoor :: "conn \<Rightarrow> (error option \<times> conn) option" where
  "OpenRightDoor connection = acked connection ''WS 1'' doorRegex"

definition OpenLeftDoor :: "conn \<Rightarrow> (error option \<times> conn) option" where
  "OpenLeftDoor connection = acked connection ''WS 2'' doorRegex"

definition Zero :: "conn \<Rightarrow> (error option \<times> conn) option" where
  "Zero connection = acked connection ''Z'' (lit ''Z A'')"

section \<open>WeightOnKey\<close>

definition weightRegex :: regex where
  "weightRegex = lit ''ST'' @ value_unit"

definition stopRegex :: regex where
  "stopRegex = lit ''ST '' @ [One AL]"

text \<open>
  How the acquisition loop ends: the function returns from inside the loop with the
  given pair, it panics, or the loop condition fails and control reaches the code
  after the loop with the list collected so far.
\<close>

datatype loop_end =
    Return "Measurement list \<times> error option"
  | Panic panic
  | Fallthrough "Measurement list"

partial_function (option) collect ::
  "int \<Rightarrow> int \<Rightarrow> nat \<Rightarrow> int \<Rightarrow> Measurement list \<Rightarrow> string \<Rightarrow> conn \<Rightarrow> (loop_end \<times> conn) option"
where
  "collect numMeasurements timeout start i weightList buf c =
     (if i < numMeasurements \<and> Since c start < timeout
      then (case Read c buf of
              None \<Rightarrow> None
            | Some ((Some err, buf'), c') \<Rightarrow> Some (Return ([], Some err), c')
            | Some ((None, buf'), c') \<Rightarrow>
                if Match weightRegex buf'
                then (case index (FindStringSubmatch weightRegex buf') 1 of
                        Panicked p \<Rightarrow> Some (Panic p, c')
                      | Returned r1 \<Rightarrow>
                          (case ParseFloat r1 of
                             Inl err \<Rightarrow> Some (Return ([], Some err), c')
                           | Inr weightValue \<Rightarrow>
                               (case index (FindStringSubmatch weightRegex buf') 2 of
                                  Panicked p \<Rightarrow> Some (Panic p, c')
                                | Returned r2 \<Rightarrow>
                                    collect numMeasurements timeout start (i + 1)
                                      (weightList @ [\<lparr>mWeight = weightValue, mUnit = r2\<rparr>])
                                      buf' c')))
                else collect numMeasurements timeout start i weightList buf' c')
      else Some (Fallthrough weightList, c))"

text \<open>
  \<open>intInf\<close> is the value of \<^verbatim>\<open>int(math.Inf(1))\<close>, which the language leaves to the
  implementation. The deferred stop command is registered after the loop, so it runs
  only when control reaches the final \<^verbatim>\<open>return\<close>; its result is discarded.
\<close>

definition WeightOnKey ::
  "int \<Rightarrow> conn \<Rightarrow> int \<Rightarrow> int \<Rightarrow> ((Measurement list \<times> error option) outcome \<times> conn) option"
where
  "WeightOnKey intInf connection numMeasurements timeout =
     (if timeout = 0 \<and> numMeasurements = 0
      then Some (Returned ([], Some (Errorf ''timeout and numMeasurements cannot both be infinite (0)'')),
                 connection)
      else
        (case DirectCommand connection ''ST 1'' (lit ''ST A'') of
           None \<Rightarrow> None
         | Some ((_, Some err), c1) \<Rightarrow> Some (Returned ([], Some err), c1)
         | Some ((_, None), c1) \<Rightarrow>
             (case collect (if numMeasurements = 0 then intInf else numMeasurements)
                     (if timeout = 0 then MaxInt64 else timeout) (clock c1) 0 [] make_buf c1 of
                None \<Rightarrow> None
              | Some (Return r, c2) \<Rightarrow> Some (Returned r, c2)
              | Some (Panic p, c2) \<Rightarrow> Some (Panicked p, c2)
              | Some (Fallthrough weightList, c2) \<Rightarrow>
                  (case DirectCommand c2 ''ST 0'' stopRegex of
                     None \<Rightarrow> None
                   | Some (_, c3) \<Rightarrow> Some (Returned (weightList, None), c3)))))"

section \<open>Scripted devices\<close>

text \<open>
  A device that answers the reads with the events of a list, in order, and with a
  default event ever after; its writes all succeed.
\<close>

definition script :: "read_event list \<Rightarrow> read_event \<Rightarrow> nat \<Rightarrow> read_event" where
  "script es d k = (if k < length es then es ! k else d)"

definition device :: "read_event list \<Rightarrow> read_event \<Rightarrow> conn" where
  "device es d = \<lparr>reads = script es d, writes = (\<lambda>k. None), nread = 0, wlog = [], clock = 0\<rparr>"

text \<open>
  \<open>read_on c c'\<close>: the connection \<open>c'\<close> is \<open>c\<close> after some reads: the same scripts
  and write log, the read position and the clock not before those of \<open>c\<close>.
\<close>

definition read_on :: "conn \<Rightarrow> conn \<Rightarrow> bool" where
  "read_on c c' = (wlog c' = wlog c \<and> writes c' = writes c \<and> reads c' = reads c
     \<and> nread c \<le> nread c' \<and> clock c \<le> clock c')"

text \<open>The time a read takes (a read that never returns has none).\<close>

fun latency :: "read_event \<Rightarrow> nat" where
  "latency Blocks = 0"
| "latency (Delivers d bs) = d"
| "latency (Fails d e) = d"

text \<open>What the read loop of \<open>DirectCommand\<close> guarantees about its result.\<close>

definition awaited :: "regex \<Rightarrow> nat \<Rightarrow> bool \<Rightarrow> string \<Rightarrow> conn \<Rightarrow> (error + bool \<times> string) \<times> conn \<Rightarrow> bool" where
  "awaited regex start match buf c y =
     (read_on c (snd y)
      \<and> (snd y = c \<or>
           nread c < nread (snd y)
           \<and> int (clock (snd y)) - int start < 5 * Second + int (latency (reads c (nread (snd y) - 1))))
      \<and> (case fst y of
            Inl e \<Rightarrow> nread c < nread (snd y) \<and> (\<exists>d. reads c (nread (snd y) - 1) = Fails d e)
          | Inr (m, b) \<Rightarrow>
              length b = length buf
              \<and> (snd y = c \<and> m = match \<and> b = buf \<and> (match \<or> 5 * Second \<le> Since c start)
                 \<or> snd y \<noteq> c \<and> m = Match regex b \<and> (m \<or> 5 * Second \<le> Since (snd y) start))))"

text \<open>
  \<open>delivers rs p evs\<close>: the reads from position \<open>p\<close> on deliver, one after the other,
  the bytes listed in \<open>evs\<close>, each after the latency listed with it.
\<close>

fun delivers :: "(nat \<Rightarrow> read_event) \<Rightarrow> nat \<Rightarrow> (nat \<times> string) list \<Rightarrow> bool" where
  "delivers rs p [] = True"
| "delivers rs p ((d, bs) # evs) = (rs p = Delivers d bs \<and> delivers rs (Suc p) evs)"

text \<open>
  \<open>replied c command d\<close>: the connection \<open>c\<close> after \<open>command\<close> has been written to
  it and one read, taking \<open>d\<close> nanoseconds, has returned.
\<close>

definition replied :: "conn \<Rightarrow> string \<Rightarrow> nat \<Rightarrow> conn" where
  "replied c command d =
     c\<lparr>wlog := wlog c @ [command @ CRLF], nread := Suc (nread c), clock := clock c + d\<rparr>"

text \<open>
  \<open>matching_reads buf chunks\<close>: of the reads that deliver \<open>chunks\<close> one after the
  other into the buffer \<open>buf\<close>, the number after which the buffer matches the
  measurement pattern of \<^verbatim>\<open>WeightOnKey\<close>. It counts reads, not frames sent: the
  buffer is what the new bytes and the bytes left behind them by earlier reads make
  together, so a frame that a short or empty read leaves standing is counted again.
\<close>

fun matching_reads :: "string \<Rightarrow> string list \<Rightarrow> nat" where
  "matching_reads buf [] = 0"
| "matching_reads buf (bs # chunks) =
     (if Match weightRegex (overwrite buf bs) then 1 else 0)
     + matching_reads (overwrite buf bs) chunks"

section \<open>The patterns print as the literals of the source\<close>

lemmas print_defs =
  rx_String_def lit_def meta_chars_def value_unit_def digit_def letter_def AL_def

lemma source_of_acknowledgement_patterns:
  "rx_String (lit ''A10 A'') = ''A10 A''"
  "rx_String (lit ''A36 A'') = ''A36 A''"
  "rx_String (lit ''A37 A'') = ''A37 A''"
  "rx_String (lit ''D A'') = ''D A''"
  "rx_String (lit ''DW A'') = ''DW A''"
  "rx_String (lit ''M21 A'') = ''M21 A''"
  "rx_String (lit ''ST A'') = ''ST A''"
  "rx_String (lit ''Z A'') = ''Z A''"
  "rx_String (lit ''WS'') = ''WS''"
  by (simp_all add: print_defs)

lemma source_of_toggle_patterns:
  "rx_String powerRegex = ''PWR [AL]''"
  "rx_String doorRegex = ''WS [AL]''"
  "rx_String stopRegex = ''ST [AL]''"
  by (simp_all add: powerRegex_def doorRegex_def stopRegex_def print_defs)

lemma source_of_capture_patterns:
  "rx_String unitRegex = ''M21 A [0-9] ([a-zA-Z]+)''"
  "rx_String weightRegexS = ''S S +(-?[0-9]+'' @ [CHR 0x5C] @ ''.[0-9]+) ([a-zA-Z]+)''"
  "rx_String tareRegex = ''T S +(-?[0-9]+'' @ [CHR 0x5C] @ ''.[0-9]+) ([a-zA-Z]+)''"
  "rx_String weightRegex = ''ST +(-?[0-9]+'' @ [CHR 0x5C] @ ''.[0-9]+) ([a-zA-Z]+)''"
  by (simp_all add: unitRegex_def weightRegexS_def tareRegex_def weightRegex_def print_defs)

section \<open>Matching against the zero bytes of a fresh buffer\<close>

lemma here_One_NUL: "\<not> atom_ok a NUL \<Longrightarrow> here (One a # p) (replicate n NUL) = None"
  by (cases n) auto

lemma find_One_NUL: "\<not> atom_ok a NUL \<Longrightarrow> find_rx (One a # p) (replicate n NUL) = None"
  by (induction n) (auto simp: here_One_NUL[of a p "Suc _", simplified])

lemmas run_defs =
  DirectCommand_def Write_def Read_def await.simps collect.simps Since_def Second_def
  MaxInt64_def make_buf_def overwrite_def Match_def FindStringSubmatch_def lit_def
  device_def script_def CRLF_def index_def between_def in_range_def
  here_One_NUL find_One_NUL

section \<open>What reading leaves alone\<close>

lemma read_on_refl: "read_on c c"
  by (simp add: read_on_def)

lemma read_on_trans: "read_on a b \<Longrightarrow> read_on b c \<Longrightarrow> read_on a c"
  by (auto simp: read_on_def)

lemma Read_read_on: "Read c buf = Some (r, c') \<Longrightarrow> read_on c c'"
  by (auto simp: Read_def read_on_def split: read_event.splits)

lemma await_read_on_aux:
  assumes "await regex start match buf c = Some y"
  shows "read_on c (snd y)"
proof (rule await.raw_induct[where P = "\<lambda>regex start match buf c y. read_on c (snd y)", OF _ assms])
  fix f regex start match buf c y
  assume IH: "\<And>regex start match buf c y. f regex start match buf c = Some y \<Longrightarrow> read_on c (snd y)"
    and step: "(if \<not> match \<and> Since c start < 5 * Second
       then case Read c buf of None \<Rightarrow> None
            | Some ((None, buf'), c') \<Rightarrow> f regex start (Match regex buf') buf' c'
            | Some ((Some err, buf'), c') \<Rightarrow> Some (Inl err, c')
       else Some (Inr (match, buf), c)) = Some y"
  show "read_on c (snd y)"
  proof (cases "\<not> match \<and> Since c start < 5 * Second")
    case False
    then have "y = (Inr (match, buf), c)"
      using step by (auto split: if_splits)
    then show ?thesis by (simp add: read_on_refl)
  next
    case True
    with step obtain e b c1 where rd: "Read c buf = Some ((e, b), c1)"
      by (auto split: option.splits)
    note fr = Read_read_on[OF rd]
    show ?thesis
    proof (cases e)
      case (Some err)
      with step True rd fr show ?thesis by auto
    next
      case None
      with step True rd have "f regex start (Match regex b) b c1 = Some y" by simp
      from IH[OF this] fr show ?thesis by (rule read_on_trans[rotated])
    qed
  qed
qed

lemma await_read_on:
  "await regex start match buf c = Some (r, c') \<Longrightarrow> read_on c c'"
  using await_read_on_aux[of regex start match buf c "(r, c')"] by simp

lemma DirectCommand_wlog:
  "DirectCommand c command regex = Some (r, c') \<Longrightarrow>
     wlog c' = wlog c @ [command @ CRLF] \<and> writes c' = writes c \<and> reads c' = reads c"
  by (auto simp: DirectCommand_def Write_def read_on_def split: prod.splits option.splits sum.splits if_splits
      dest!: await_read_on)

section \<open>Formatting the numbers of the target command\<close>

lemma round_half_even_near:
  assumes "0 \<le> y" "of_nat q - 1 / 2 < y" "y < of_nat q + 1 / 2"
  shows "round_half_even y = q"
proof (cases "of_nat q \<le> y")
  case True
  have "\<lfloor>y\<rfloor> = int q"
    by (rule floor_unique) (use True assms in auto)
  then show ?thesis
    using assms by (simp add: round_half_even_def Let_def)
next
  case False
  then have q: "0 < q" using assms(1) by (cases q) auto
  have "\<lfloor>y\<rfloor> = int q - 1"
    by (rule floor_unique) (use False assms in auto)
  then show ?thesis
    using assms q False by (simp add: round_half_even_def Let_def)
qed

lemma format_12_5: "FormatFloat_f (25 / 2) 2 = ''12.50''"
proof -
  have "scaled (25 / 2) 2 = 1250"
    unfolding scaled_def by (rule round_half_even_near) simp_all
  then show ?thesis
    unfolding FormatFloat_f_def by (simp add: pad_zeros_def digit_char_def Itoa_nat.simps)
qed

lemma format_0_1: "FormatFloat_f (3602879701896397 / 2 ^ 55) 2 = ''0.10''"
proof -
  have "scaled (3602879701896397 / 2 ^ 55) 2 = 10"
    unfolding scaled_def by (rule round_half_even_near) simp_all
  then show ?thesis
    unfolding FormatFloat_f_def by (simp add: pad_zeros_def digit_char_def Itoa_nat.simps)
qed

lemma format_0_2: "FormatFloat_f (3602879701896397 / 2 ^ 54) 2 = ''0.20''"
proof -
  have "scaled (3602879701896397 / 2 ^ 54) 2 = 20"
    unfolding scaled_def by (rule round_half_even_near) simp_all
  then show ?thesis
    unfolding FormatFloat_f_def by (simp add: pad_zeros_def digit_char_def Itoa_nat.simps)
qed

section \<open>Early returns of the acquisition loop\<close>

lemma collect_Return_aux:
  assumes "collect numMeasurements timeout start i weightList buf c = Some y"
  shows "\<forall>r. fst y = Return r \<longrightarrow> fst r = [] \<and> snd r \<noteq> None"
proof -
  define Q :: "loop_end \<times> conn \<Rightarrow> bool"
    where "Q y = (\<forall>r. fst y = Return r \<longrightarrow> fst r = [] \<and> snd r \<noteq> None)" for y
  have "Q y"
  proof (rule collect.raw_induct[where P = "\<lambda>numMeasurements timeout start i weightList buf c y. Q y",
        OF _ assms])
    fix f numMeasurements timeout start i weightList buf c y
    assume IH: "\<And>numMeasurements timeout start i weightList buf c y.
          f numMeasurements timeout start i weightList buf c = Some y \<Longrightarrow> Q y"
      and step: "(if i < numMeasurements \<and> Since c start < timeout
        then case Read c buf of None \<Rightarrow> None
             | Some ((None, buf'), c') \<Rightarrow>
                 if Match weightRegex buf'
                 then case index (FindStringSubmatch weightRegex buf') 1 of
                      Returned r1 \<Rightarrow>
                        (case ParseFloat r1 of
                          Inl err \<Rightarrow> Some (Return ([], Some err), c')
                        | Inr weightValue \<Rightarrow>
                            (case index (FindStringSubmatch weightRegex buf') 2 of
                              Returned r2 \<Rightarrow>
                                f numMeasurements timeout start (i + 1)
                                  (weightList @ [\<lparr>mWeight = weightValue, mUnit = r2\<rparr>]) buf' c'
                            | Panicked p \<Rightarrow> Some (Panic p, c')))
                      | Panicked p \<Rightarrow> Some (Panic p, c')
                 else f numMeasurements timeout start i weightList buf' c'
             | Some ((Some err, buf'), c') \<Rightarrow> Some (Return ([], Some err), c')
        else Some (Fallthrough weightList, c)) = Some y"
    have base: "\<And>e c'. Q (Return ([], Some e), c')" "\<And>p c'. Q (Panic p, c')"
      "\<And>ws c'. Q (Fallthrough ws, c')"
      by (simp_all add: Q_def)
    show "Q y"
      using step
      by (auto split: if_splits option.splits outcome.splits sum.splits intro: IH base)
  qed
  then show ?thesis by (simp add: Q_def)
qed

lemma collect_Return:
  "collect numMeasurements timeout start i weightList buf c = Some (Return (ws, e), c') \<Longrightarrow>
     ws = [] \<and> e \<noteq> None"
  using collect_Return_aux[of numMeasurements timeout start i weightList buf c "(Return (ws, e), c')"]
  by simp

section \<open>The read loop returns\<close>

lemma length_overwrite: "length (overwrite buf bs) = length buf"
  by (simp add: overwrite_def)

lemma Since_less_5s: "Since c start < 5 * Second \<longleftrightarrow> int (clock c) - int start < 5 * Second"
  by (auto simp: Since_def Second_def MaxInt64_def min_def)

lemma awaited_stop:
  "\<not> (\<not> match \<and> Since c start < 5 * Second) \<Longrightarrow>
     awaited regex start match buf c (Inr (match, buf), c)"
  by (auto simp: awaited_def read_on_refl)

lemma awaited_fail:
  assumes "reads c (nread c) = Fails d e" and "Since c start < 5 * Second"
  shows "awaited regex start match buf c (Inl e, c\<lparr>nread := Suc (nread c), clock := clock c + d\<rparr>)"
  using assms by (auto simp: awaited_def read_on_def Since_less_5s)

lemma awaited_step:
  assumes rd: "reads c (nread c) = Delivers d bs" and go: "Since c start < 5 * Second"
    and aw: "awaited regex start (Match regex (overwrite buf bs)) (overwrite buf bs)
               (c\<lparr>nread := Suc (nread c), clock := clock c + d\<rparr>) y"
  shows "awaited regex start match buf c y"
proof -
  define c1 where "c1 = c\<lparr>nread := Suc (nread c), clock := clock c + d\<rparr>"
  have ne: "c1 \<noteq> c" "nread c1 = Suc (nread c)" "reads c1 = reads c"
    "int (clock c1) - int start < 5 * Second + int (latency (reads c (nread c1 - 1)))"
    using go rd by (auto simp: c1_def Since_less_5s dest: arg_cong[where f = nread])
  have ro: "read_on c c1"
    by (simp add: read_on_def c1_def)
  have far: "snd y \<noteq> c"
    using aw ne by (auto simp: awaited_def read_on_def c1_def[symmetric])
  show ?thesis
  proof (cases "fst y")
    case (Inl e)
    then show ?thesis
      using aw ne ro far unfolding awaited_def c1_def[symmetric]
      by (auto intro: read_on_trans simp: read_on_def)
  next
    case (Inr mb)
    then obtain m b where mb: "fst y = Inr (m, b)" by (cases mb) auto
    show ?thesis
      using aw ne ro far mb unfolding awaited_def c1_def[symmetric]
      by (auto intro: read_on_trans simp: read_on_def length_overwrite)
  qed
qed

lemma await_awaited:
  assumes "await regex start match buf c = Some y"
  shows "awaited regex start match buf c y"
proof (rule await.raw_induct[where P = "\<lambda>regex start match buf c y. awaited regex start match buf c y",
      OF _ assms])
  fix f regex start match buf c y
  assume IH: "\<And>regex start match buf c y.
        f regex start match buf c = Some y \<Longrightarrow> awaited regex start match buf c y"
    and step: "(if \<not> match \<and> Since c start < 5 * Second
       then case Read c buf of None \<Rightarrow> None
            | Some ((None, buf'), c') \<Rightarrow> f regex start (Match regex buf') buf' c'
            | Some ((Some err, buf'), c') \<Rightarrow> Some (Inl err, c')
       else Some (Inr (match, buf), c)) = Some y"
  show "awaited regex start match buf c y"
  proof (cases "\<not> match \<and> Since c start < 5 * Second")
    case False
    then have "y = (Inr (match, buf), c)"
      using step by (auto split: if_splits)
    with False show ?thesis by (simp add: awaited_stop)
  next
    case True
    show ?thesis
    proof (cases "reads c (nread c)")
      case Blocks
      with step True show ?thesis by (simp add: Read_def)
    next
      case (Fails d e)
      with step True have "y = (Inl e, c\<lparr>nread := Suc (nread c), clock := clock c + d\<rparr>)"
        by (auto simp: Read_def)
      with Fails True show ?thesis by (simp add: awaited_fail)
    next
      case (Delivers d bs)
      with step True have "f regex start (Match regex (overwrite buf bs)) (overwrite buf bs)
          (c\<lparr>nread := Suc (nread c), clock := clock c + d\<rparr>) = Some y"
        by (simp add: Read_def)
      from awaited_step[OF Delivers _ IH[OF this]] True show ?thesis by simp
    qed
  qed
qed

lemma await_returns:
  assumes "\<forall>k\<ge>nread c. reads c k \<noteq> Blocks \<and> 0 < latency (reads c k)"
  shows "\<exists>y. await regex start match buf c = Some y"
  using assms
proof (induction c arbitrary: match buf
    rule: measure_induct_rule[where f = "\<lambda>c. nat (5 * Second - (int (clock c) - int start))"])
  case (less c)
  show ?case
  proof (cases "\<not> match \<and> Since c start < 5 * Second")
    case False
    then have "await regex start match buf c = Some (Inr (match, buf), c)"
      by (subst await.simps) auto
    then show ?thesis by blast
  next
    case True
    then have el: "int (clock c) - int start < 5 * Second"
      by (simp add: Since_less_5s)
    from less.prems have ev: "reads c (nread c) \<noteq> Blocks" "0 < latency (reads c (nread c))"
      by auto
    show ?thesis
    proof (cases "reads c (nread c)")
      case Blocks
      with ev show ?thesis by simp
    next
      case (Fails d e)
      have "await regex start match buf c = Some (Inl e, c\<lparr>nread := Suc (nread c), clock := clock c + d\<rparr>)"
        using True Fails by (subst await.simps) (simp add: Read_def)
      then show ?thesis by blast
    next
      case (Delivers d bs)
      define c1 where "c1 = c\<lparr>nread := Suc (nread c), clock := clock c + d\<rparr>"
      have d: "0 < d" using ev Delivers by simp
      have un: "await regex start match buf c =
          await regex start (Match regex (overwrite buf bs)) (overwrite buf bs) c1"
        using True Delivers by (subst await.simps) (simp add: Read_def c1_def)
      have "nat (5 * Second - (int (clock c1) - int start)) < nat (5 * Second - (int (clock c) - int start))"
        using el d by (simp add: c1_def)
      moreover have "\<forall>k\<ge>nread c1. reads c1 k \<noteq> Blocks \<and> 0 < latency (reads c1 k)"
        using less.prems by (simp add: c1_def)
      ultimately show ?thesis
        using less.IH un by simp
    qed
  qed
qed

section \<open>The buffer after a run of reads\<close>

lemma await_chunks:
  assumes "delivers (reads c) (nread c) evs" "evs \<noteq> []"
    and "int (clock c) - int start + int (sum_list (map fst (butlast evs))) < 5 * Second"
    and "\<forall>k. 0 < k \<and> k < length evs \<longrightarrow> \<not> Match regex (foldl overwrite buf (map snd (take k evs)))"
    and "Match regex (foldl overwrite buf (map snd evs))"
  shows "await regex start False buf c =
           Some (Inr (True, foldl overwrite buf (map snd evs)),
                 c\<lparr>nread := nread c + length evs, clock := clock c + sum_list (map fst evs)\<rparr>)"
  using assms
proof (induction evs arbitrary: buf c)
  case Nil
  then show ?case by simp
next
  case (Cons ev es)
  obtain d b where ev: "ev = (d, b)" by (cases ev)
  define c1 where "c1 = c\<lparr>nread := Suc (nread c), clock := clock c + d\<rparr>"
  define b1 where "b1 = overwrite buf b"
  from Cons.prems(1) have rd: "reads c (nread c) = Delivers d b"
    and rest: "delivers (reads c1) (nread c1) es"
    by (simp_all add: ev c1_def)
  from Cons.prems(3) have "int (clock c) - int start < 5 * Second"
    using of_nat_0_le_iff[of "sum_list (map fst (butlast (ev # es)))", where ?'a = int] by linarith
  then have go: "Since c start < 5 * Second"
    by (simp add: Since_less_5s)
  have un: "await regex start False buf c = await regex start (Match regex b1) b1 c1"
    using go rd by (subst await.simps) (simp add: Read_def c1_def b1_def)
  show ?case
  proof (cases "es = []")
    case True
    with Cons.prems(5) have "Match regex b1"
      by (simp add: ev b1_def)
    then have "await regex start (Match regex b1) b1 c1 = Some (Inr (True, b1), c1)"
      by (subst await.simps) simp
    with un True show ?thesis
      by (simp add: ev b1_def c1_def)
  next
    case False
    from Cons.prems(4)[rule_format, of 1] False have nm1: "\<not> Match regex b1"
      by (cases es) (simp_all add: ev b1_def)
    have tm: "int (clock c1) - int start + int (sum_list (map fst (butlast es))) < 5 * Second"
      using Cons.prems(3) False by (simp add: c1_def ev)
    have nm: "\<forall>k. 0 < k \<and> k < length es \<longrightarrow> \<not> Match regex (foldl overwrite b1 (map snd (take k es)))"
    proof (intro allI impI)
      fix k assume "0 < k \<and> k < length es"
      with Cons.prems(4)[rule_format, of "Suc k"]
      show "\<not> Match regex (foldl overwrite b1 (map snd (take k es)))"
        by (simp add: ev b1_def)
    qed
    have m: "Match regex (foldl overwrite b1 (map snd es))"
      using Cons.prems(5) by (simp add: ev b1_def)
    from Cons.IH[OF rest False tm nm m] un nm1 show ?thesis
      by (simp add: ev b1_def c1_def)
  qed
qed

section \<open>Where a pattern matches\<close>

lemma here_lit:
  "here (lit s @ p) t = (if take (length s) t = s then here p (drop (length s) t) else None)"
proof (induction s arbitrary: t)
  case Nil
  then show ?case by (simp add: lit_def)
next
  case (Cons x s)
  then show ?case by (cases t) (auto simp: lit_def)
qed

lemma find_rx_iff:
  "find_rx p s \<noteq> None \<longleftrightarrow> (\<exists>pre suf. s = pre @ suf \<and> here p suf \<noteq> None)"
proof (induction s)
  case Nil
  then show ?case by simp
next
  case (Cons x s)
  show ?case
  proof (cases "here p (x # s)")
    case (Some m)
    then have "\<exists>pre suf. x # s = pre @ suf \<and> here p suf \<noteq> None"
      by (intro exI[of _ "[]"] exI[of _ "x # s"]) simp
    with Some show ?thesis by simp
  next
    case None
    have "(\<exists>pre suf. x # s = pre @ suf \<and> here p suf \<noteq> None)
          \<longleftrightarrow> (\<exists>pre suf. s = pre @ suf \<and> here p suf \<noteq> None)"
    proof
      assume "\<exists>pre suf. x # s = pre @ suf \<and> here p suf \<noteq> None"
      then obtain pre suf where ps: "x # s = pre @ suf" "here p suf \<noteq> None" by blast
      with None obtain pre' where "pre = x # pre'" by (cases pre) auto
      with ps show "\<exists>pre suf. s = pre @ suf \<and> here p suf \<noteq> None" by auto
    next
      assume "\<exists>pre suf. s = pre @ suf \<and> here p suf \<noteq> None"
      then obtain pre suf where "s = pre @ suf" "here p suf \<noteq> None" by blast
      then have "x # s = (x # pre) @ suf \<and> here p suf \<noteq> None" by simp
      then show "\<exists>pre suf. x # s = pre @ suf \<and> here p suf \<noteq> None" by blast
    qed
    with None Cons show ?thesis by simp
  qed
qed

lemma here_lit_One:
  "here (lit v @ [One a]) t \<noteq> None \<longleftrightarrow> (\<exists>x post. t = v @ x # post \<and> atom_ok a x)"
proof -
  have "here [One a] u \<noteq> None \<longleftrightarrow> (\<exists>x post. u = x # post \<and> atom_ok a x)" for u
    by (cases u) auto
  then have "here (lit v @ [One a]) t \<noteq> None \<longleftrightarrow>
      take (length v) t = v \<and> (\<exists>x post. drop (length v) t = x # post \<and> atom_ok a x)"
    by (simp add: here_lit)
  also have "\<dots> \<longleftrightarrow> (\<exists>x post. t = v @ x # post \<and> atom_ok a x)"
  proof
    assume "take (length v) t = v \<and> (\<exists>x post. drop (length v) t = x # post \<and> atom_ok a x)"
    then obtain x post where "take (length v) t = v" "drop (length v) t = x # post" "atom_ok a x"
      by blast
    moreover from this have "t = v @ x # post"
      using append_take_drop_id[of "length v" t] by simp
    ultimately show "\<exists>x post. t = v @ x # post \<and> atom_ok a x" by blast
  next
    assume "\<exists>x post. t = v @ x # post \<and> atom_ok a x"
    then show "take (length v) t = v \<and> (\<exists>x post. drop (length v) t = x # post \<and> atom_ok a x)"
      by auto
  qed
  finally show ?thesis .
qed

lemma atom_ok_AL: "atom_ok AL x \<longleftrightarrow> x = CHR ''A'' \<or> x = CHR ''L''"
proof -
  have "(x = CHR ''A'') = (of_char x = (of_char CHR ''A'' :: nat))"
    "(x = CHR ''L'') = (of_char x = (of_char CHR ''L'' :: nat))"
    by (simp_all only: of_char_eq_iff)
  then show ?thesis
    by (auto simp: AL_def in_range_def)
qed

lemma Match_lit_AL:
  "Match (lit v @ [One AL]) b \<longleftrightarrow>
     (\<exists>pre x post. b = pre @ v @ x # post \<and> (x = CHR ''A'' \<or> x = CHR ''L''))"
  unfolding Match_def find_rx_iff here_lit_One atom_ok_AL by auto

lemma occurs_before_padding:
  assumes eq: "reply @ replicate n NUL = pre @ m @ post" and m: "m \<noteq> []" "NUL \<notin> set m"
  shows "\<exists>post'. reply = pre @ m @ post'"
proof -
  from eq have "reply @ replicate n NUL = (pre @ m) @ post" by simp
  then obtain us where us: "reply = (pre @ m) @ us \<and> us @ replicate n NUL = post
      \<or> reply @ us = pre @ m \<and> replicate n NUL = us @ post"
    unfolding append_eq_append_conv2 by blast
  then show ?thesis
  proof
    assume "reply = (pre @ m) @ us \<and> us @ replicate n NUL = post"
    then show ?thesis by simp
  next
    assume a: "reply @ us = pre @ m \<and> replicate n NUL = us @ post"
    show ?thesis
    proof (cases "us = []")
      case True
      with a show ?thesis by simp
    next
      case False
      from a have "set us \<subseteq> set (replicate n NUL)" by simp
      with last_in_set[OF False] have "last us \<in> set (replicate n NUL)" by blast
      then have "last us = NUL" by simp
      moreover from a False have "last us = last m"
        using m(1) by (metis last_appendR)
      ultimately show ?thesis using m last_in_set[OF m(1)] by simp
    qed
  qed
qed

lemma acked_first_reply:
  assumes w: "writes c (length (wlog c)) = None"
    and r: "reads c (nread c) = Delivers d reply" and len: "length reply \<le> 128"
    and v: "NUL \<notin> set v"
  shows "acked c command (lit v @ [One AL]) = Some (None, replied c command d) \<longleftrightarrow>
           (\<exists>pre x post. reply = pre @ v @ x # post \<and> (x = CHR ''A'' \<or> x = CHR ''L''))"
proof -
  define regex where "regex = lit v @ [One AL]"
  define c1 where "c1 = c\<lparr>wlog := wlog c @ [command @ CRLF]\<rparr>"
  define b1 where "b1 = overwrite make_buf reply"
  have c2: "c1\<lparr>nread := Suc (nread c1), clock := clock c1 + d\<rparr> = replied c command d"
    by (simp add: c1_def replied_def)
  have pad: "b1 = reply @ replicate (128 - length reply) NUL"
    using len by (simp add: b1_def overwrite_def make_buf_def)
  have M: "Match regex b1 \<longleftrightarrow>
      (\<exists>pre x post. reply = pre @ v @ x # post \<and> (x = CHR ''A'' \<or> x = CHR ''L''))"
  proof
    assume "Match regex b1"
    then obtain pre x post where b: "b1 = pre @ v @ x # post" and x: "x = CHR ''A'' \<or> x = CHR ''L''"
      unfolding regex_def Match_lit_AL by blast
    from b pad have "reply @ replicate (128 - length reply) NUL = pre @ (v @ [x]) @ post"
      by simp
    from occurs_before_padding[OF this] v x obtain post' where "reply = pre @ (v @ [x]) @ post'"
      by auto
    with x show "\<exists>pre x post. reply = pre @ v @ x # post \<and> (x = CHR ''A'' \<or> x = CHR ''L'')"
      by auto
  next
    assume "\<exists>pre x post. reply = pre @ v @ x # post \<and> (x = CHR ''A'' \<or> x = CHR ''L'')"
    then obtain pre x post where "reply = pre @ v @ x # post" "x = CHR ''A'' \<or> x = CHR ''L''"
      by blast
    then have "b1 = pre @ v @ x # (post @ replicate (128 - length reply) NUL) \<and> (x = CHR ''A'' \<or> x = CHR ''L'')"
      using pad by simp
    then show "Match regex b1"
      unfolding regex_def Match_lit_AL by blast
  qed
  have s0: "Since c1 (clock c1) < 5 * Second"
    by (simp add: Since_def MaxInt64_def Second_def)
  have un: "await regex (clock c1) False make_buf c1 =
      await regex (clock c1) (Match regex b1) b1 (replied c command d)"
    using s0 r by (subst await.simps) (simp add: Read_def c1_def b1_def replied_def)
  have dc: "DirectCommand c command regex =
      (case await regex (clock c1) (Match regex b1) b1 (replied c command d) of
         None \<Rightarrow> None
       | Some (Inl err, c2) \<Rightarrow> Some ((None, Some err), c2)
       | Some (Inr (match, buf), c2) \<Rightarrow>
           if \<not> match then Some ((Some buf, Some (timed_out command regex buf)), c2)
           else Some ((Some buf, None), c2))"
    using w by (simp add: DirectCommand_def Write_def c1_def[symmetric] un)
  show ?thesis
    unfolding regex_def[symmetric] M[symmetric]
  proof
    assume "Match regex b1"
    then have "await regex (clock c1) (Match regex b1) b1 (replied c command d) =
        Some (Inr (True, b1), replied c command d)"
      by (subst await.simps) simp
    then show "acked c command regex = Some (None, replied c command d)"
      by (simp add: acked_def dc)
  next
    assume a: "acked c command regex = Some (None, replied c command d)"
    then obtain b where "await regex (clock c1) (Match regex b1) b1 (replied c command d) =
        Some (Inr (True, b), replied c command d)"
      by (auto simp: acked_def dc split: option.splits sum.splits prod.splits if_splits)
    from await_awaited[OF this] show "Match regex b1"
      by (simp add: awaited_def)
  qed
qed

section \<open>What the weight patterns capture\<close>

lemma here_Many:
  "here (Many a # p) s = Some ms \<Longrightarrow>
     \<exists>xs rest. s = xs @ rest \<and> xs \<noteq> [] \<and> list_all (atom_ok a) xs \<and> here p rest = Some ms"
proof (induction s)
  case Nil
  then show ?case by simp
next
  case (Cons x s)
  from Cons.prems have ok: "atom_ok a x"
    by (simp split: if_splits)
  show ?case
  proof (cases "here (Many a # p) s")
    case None
    with Cons.prems ok have "here p s = Some ms" by simp
    with ok have "x # s = [x] @ s \<and> [x] \<noteq> [] \<and> list_all (atom_ok a) [x] \<and> here p s = Some ms"
      by simp
    then show ?thesis by blast
  next
    case (Some m)
    with Cons.prems ok have "here (Many a # p) s = Some ms" by simp
    from Cons.IH[OF this] obtain xs rest where
      "s = xs @ rest" "list_all (atom_ok a) xs" "here p rest = Some ms" by blast
    with ok have "x # s = (x # xs) @ rest \<and> x # xs \<noteq> [] \<and> list_all (atom_ok a) (x # xs)
        \<and> here p rest = Some ms"
      by simp
    then show ?thesis by blast
  qed
qed

lemma here_One:
  "here (One a # p) s = Some ms \<Longrightarrow> \<exists>x rest. s = x # rest \<and> atom_ok a x \<and> here p rest = Some ms"
  by (cases s) (auto split: if_splits)

lemma here_Maybe:
  "here (Maybe a # p) s = Some ms \<Longrightarrow>
     \<exists>xs rest. s = xs @ rest \<and> (xs = [] \<or> (\<exists>x. xs = [x] \<and> atom_ok a x)) \<and> here p rest = Some ms"
proof (cases s)
  case Nil
  assume "here (Maybe a # p) s = Some ms"
  with Nil show ?thesis by simp
next
  case (Cons x t)
  assume h: "here (Maybe a # p) s = Some ms"
  show ?thesis
  proof (cases "atom_ok a x \<and> here p t = Some ms")
    case True
    with Cons have "s = [x] @ t \<and> ([x] = [] \<or> (\<exists>y. [x] = [y] \<and> atom_ok a y)) \<and> here p t = Some ms"
      by simp
    then show ?thesis by blast
  next
    case False
    with h Cons have "here p s = Some ms"
      by (auto split: if_splits option.splits)
    then have "s = [] @ s \<and> ([] = [] \<or> (\<exists>y. [] = [y] \<and> atom_ok a y)) \<and> here p s = Some ms"
      by simp
    then show ?thesis by blast
  qed
qed

lemma here_mark:
  "here (Open # p) s = Some ms \<Longrightarrow> \<exists>ms'. ms = s # ms' \<and> here p s = Some ms'"
  "here (Close # p) s = Some ms \<Longrightarrow> \<exists>ms'. ms = s # ms' \<and> here p s = Some ms'"
  by auto

lemma between_append: "between (xs @ ys) ys = xs"
  by (simp add: between_def)

lemma atom_ok_digit: "atom_ok digit x = is_digit x"
  by (simp add: digit_def is_digit_def)

text \<open>The marks of a match of the shared tail of the weight patterns.\<close>

lemma here_value_unit:
  assumes "here value_unit t = Some ms"
  shows "\<exists>sp sign ip fp u rest.
           t = sp @ sign @ ip @ ''.'' @ fp @ '' '' @ u @ rest
           \<and> ms = [sign @ ip @ ''.'' @ fp @ '' '' @ u @ rest, '' '' @ u @ rest, u @ rest, rest, rest]
           \<and> (sign = [] \<or> sign = ''-'')
           \<and> ip \<noteq> [] \<and> list_all is_digit ip \<and> fp \<noteq> [] \<and> list_all is_digit fp \<and> u \<noteq> []"
proof -
  from assms obtain sp t1 where 1: "t = sp @ t1"
    and h1: "here [Open, Maybe (Chr CHR ''-''), Many digit, One (Chr CHR ''.''), Many digit, Close,
        One (Chr CHR '' ''), Open, Many letter, Close] t1 = Some ms"
    unfolding value_unit_def by (blast dest: here_Many)
  from here_mark(1)[OF h1] obtain ms1 where 2: "ms = t1 # ms1"
    and h2: "here [Maybe (Chr CHR ''-''), Many digit, One (Chr CHR ''.''), Many digit, Close,
        One (Chr CHR '' ''), Open, Many letter, Close] t1 = Some ms1"
    by blast
  from here_Maybe[OF h2] obtain sign t2 where 3: "t1 = sign @ t2" "sign = [] \<or> sign = ''-''"
    and h3: "here [Many digit, One (Chr CHR ''.''), Many digit, Close,
        One (Chr CHR '' ''), Open, Many letter, Close] t2 = Some ms1"
    by auto
  from here_Many[OF h3] obtain ip t3 where 4: "t2 = ip @ t3" "ip \<noteq> []" "list_all is_digit ip"
    and h4: "here [One (Chr CHR ''.''), Many digit, Close,
        One (Chr CHR '' ''), Open, Many letter, Close] t3 = Some ms1"
    by (auto simp: atom_ok_digit[abs_def])
  from here_One[OF h4] obtain t4 where 5: "t3 = ''.'' @ t4"
    and h5: "here [Many digit, Close, One (Chr CHR '' ''), Open, Many letter, Close] t4 = Some ms1"
    by auto
  from here_Many[OF h5] obtain fp t5 where 6: "t4 = fp @ t5" "fp \<noteq> []" "list_all is_digit fp"
    and h6: "here [Close, One (Chr CHR '' ''), Open, Many letter, Close] t5 = Some ms1"
    by (auto simp: atom_ok_digit[abs_def])
  from here_mark(2)[OF h6] obtain ms2 where 7: "ms1 = t5 # ms2"
    and h7: "here [One (Chr CHR '' ''), Open, Many letter, Close] t5 = Some ms2"
    by blast
  from here_One[OF h7] obtain t6 where 8: "t5 = '' '' @ t6"
    and h8: "here [Open, Many letter, Close] t6 = Some ms2"
    by auto
  from here_mark(1)[OF h8] obtain ms3 where 9: "ms2 = t6 # ms3"
    and h9: "here [Many letter, Close] t6 = Some ms3"
    by blast
  from here_Many[OF h9] obtain u t7 where 10: "t6 = u @ t7" "u \<noteq> []"
    and h10: "here [Close] t7 = Some ms3"
    by blast
  from h10 have 11: "ms3 = [t7, t7]" by auto
  have "t = sp @ sign @ ip @ ''.'' @ fp @ '' '' @ u @ t7
      \<and> ms = [sign @ ip @ ''.'' @ fp @ '' '' @ u @ t7, '' '' @ u @ t7, u @ t7, t7, t7]"
    using 1 2 3 4 5 6 7 8 9 10 11 by simp
  with 3 4 6 10 show ?thesis by blast
qed

lemma find_rx_Some:
  "find_rx p s = Some r \<Longrightarrow>
     \<exists>pre suf ms. s = pre @ suf \<and> here p suf = Some ms \<and> r = between suf (last ms) # groups ms"
proof (induction s)
  case Nil
  then show ?case by auto
next
  case (Cons x s)
  show ?case
  proof (cases "here p (x # s)")
    case (Some m)
    with Cons.prems have "x # s = [] @ (x # s) \<and> here p (x # s) = Some m
        \<and> r = between (x # s) (last m) # groups m"
      by auto
    then show ?thesis by blast
  next
    case None
    with Cons.prems have "find_rx p s = Some r" by simp
    from Cons.IH[OF this] obtain pre suf ms where
      "s = pre @ suf" "here p suf = Some ms" "r = between suf (last ms) # groups ms" by blast
    then have "x # s = (x # pre) @ suf \<and> here p suf = Some ms \<and> r = between suf (last ms) # groups ms"
      by simp
    then show ?thesis by blast
  qed
qed

text \<open>The submatches of the weight patterns: the whole match, the number, the unit.\<close>

lemma submatch_value_unit:
  assumes "find_rx (lit v @ value_unit) s = Some r"
  shows "\<exists>whole sign ip fp u.
           r = [whole, sign @ ip @ ''.'' @ fp, u]
           \<and> (sign = [] \<or> sign = ''-'')
           \<and> ip \<noteq> [] \<and> list_all is_digit ip \<and> fp \<noteq> [] \<and> list_all is_digit fp \<and> u \<noteq> []
           \<and> length ip \<le> length s"
proof -
  from find_rx_Some[OF assms] obtain pre suf ms where s: "s = pre @ suf"
    and h: "here (lit v @ value_unit) suf = Some ms" and r: "r = between suf (last ms) # groups ms"
    by blast
  from h have suf: "take (length v) suf = v" and h': "here value_unit (drop (length v) suf) = Some ms"
    by (simp_all add: here_lit split: if_splits)
  from here_value_unit[OF h'] obtain sp sign ip fp u rest where
    t: "drop (length v) suf = sp @ sign @ ip @ ''.'' @ fp @ '' '' @ u @ rest"
    and ms: "ms = [sign @ ip @ ''.'' @ fp @ '' '' @ u @ rest, '' '' @ u @ rest, u @ rest, rest, rest]"
    and p: "sign = [] \<or> sign = ''-''" "ip \<noteq> []" "list_all is_digit ip" "fp \<noteq> []"
      "list_all is_digit fp" "u \<noteq> []"
    by blast
  have g1: "between (sign @ ip @ ''.'' @ fp @ '' '' @ u @ rest) ('' '' @ u @ rest) = sign @ ip @ ''.'' @ fp"
    using between_append[of "sign @ ip @ ''.'' @ fp" "'' '' @ u @ rest"] by simp
  have g2: "between (u @ rest) rest = u"
    by (rule between_append)
  have "length (drop (length v) suf) \<le> length s"
    using s by simp
  then have "length ip \<le> length s"
    unfolding t by simp
  moreover have "r = [between suf rest, sign @ ip @ ''.'' @ fp, u]"
    unfolding r ms using g1 g2 by simp
  ultimately show ?thesis using p by blast
qed

section \<open>Parsing a captured number\<close>

lemma is_digit_chars: "\<not> is_digit CHR ''-''" "\<not> is_digit CHR ''+''" "\<not> is_digit CHR ''.''"
  by (simp_all add: is_digit_def in_range_def)

lemma digit_val_le: "is_digit c \<Longrightarrow> digit_val c \<le> 9"
  unfolding is_digit_def in_range_def digit_val_def by simp arith

lemma foldl_digits_bound:
  "list_all is_digit s \<Longrightarrow>
     Suc (foldl (\<lambda>n c. 10 * n + digit_val c) a s) \<le> Suc a * 10 ^ length s"
proof (induction s arbitrary: a)
  case Nil
  then show ?case by simp
next
  case (Cons x s)
  then have "Suc (foldl (\<lambda>n c. 10 * n + digit_val c) (10 * a + digit_val x) s)
      \<le> Suc (10 * a + digit_val x) * 10 ^ length s"
    by simp
  also have "\<dots> \<le> (10 * Suc a) * 10 ^ length s"
    using digit_val_le[of x] Cons.prems by (intro mult_right_mono) auto
  finally show ?case by (simp add: algebra_simps)
qed

lemma digits_val_less: "list_all is_digit s \<Longrightarrow> digits_val s < 10 ^ length s"
  using foldl_digits_bound[of s 0] by (simp add: digits_val_def)

lemma takeWhile_all: "list_all P xs \<Longrightarrow> \<not> P y \<Longrightarrow> takeWhile P (xs @ y # ys) = xs"
  by (induction xs) auto

lemma dropWhile_all: "list_all P xs \<Longrightarrow> \<not> P y \<Longrightarrow> dropWhile P (xs @ y # ys) = y # ys"
  by (induction xs) auto

lemma takeWhile_all_end: "list_all P xs \<Longrightarrow> takeWhile P xs = xs"
  by (induction xs) auto

lemma dropWhile_all_end: "list_all P xs \<Longrightarrow> dropWhile P xs = []"
  by (induction xs) auto

lemma ParseFloat_decimal:
  assumes sign: "sign = [] \<or> sign = ''-''"
    and ip: "ip \<noteq> []" "list_all is_digit ip" and fp: "fp \<noteq> []" "list_all is_digit fp"
    and len: "length ip \<le> 128"
  shows "\<exists>w. ParseFloat (sign @ ip @ ''.'' @ fp) = Inr w"
proof -
  define s where "s = sign @ ip @ ''.'' @ fp"
  define v :: rat where "v = of_nat (digits_val (ip @ fp)) / 10 ^ length fp"
  obtain x ip' where x: "ip = x # ip'" "is_digit x"
    using ip by (cases ip) auto
  then have x': "x \<noteq> CHR ''-''" "x \<noteq> CHR ''+''"
    using is_digit_chars by auto
  have t: "(if take 1 s = ''-'' \<or> take 1 s = ''+'' then drop 1 s else s) = ip @ ''.'' @ fp"
    using sign x x' by (auto simp: s_def)
  have tw: "takeWhile is_digit (ip @ ''.'' @ fp) = ip" "dropWhile is_digit (ip @ ''.'' @ fp) = ''.'' @ fp"
    using takeWhile_all[OF ip(2) is_digit_chars(3), of fp] dropWhile_all[OF ip(2) is_digit_chars(3), of fp]
    by simp_all
  have "digits_val (ip @ fp) < 10 ^ (length ip + length fp)"
    using digits_val_less[of "ip @ fp"] ip fp by simp
  then have "(of_nat (digits_val (ip @ fp)) :: rat) < of_nat (10 ^ (length ip + length fp))"
    by (simp only: of_nat_less_iff)
  then have "(of_nat (digits_val (ip @ fp)) :: rat) < 10 ^ length ip * 10 ^ length fp"
    by (simp add: power_add)
  then have "v < 10 ^ length ip"
    by (simp add: v_def divide_less_eq)
  also have "(10 :: rat) ^ length ip \<le> 10 ^ 128"
    using len by (intro power_increasing) auto
  also have "(10 :: rat) ^ 128 < float64_overflow"
    by (simp add: float64_overflow_def)
  finally have small: "\<not> float64_overflow \<le> v" by simp
  have "ParseFloat s = Inr (if take 1 s = ''-'' then - v else v)"
    unfolding ParseFloat_def Let_def t tw
    using small fp by (simp add: takeWhile_all_end dropWhile_all_end v_def)
  then show ?thesis unfolding s_def by blast
qed

section \<open>A successful weight command parses\<close>

lemma frame_parses:
  assumes m: "Match (lit v @ value_unit) buf" and len: "length buf \<le> 128"
  shows "\<exists>whole num u w. FindStringSubmatch (lit v @ value_unit) buf = [whole, num, u]
           \<and> num \<noteq> [] \<and> u \<noteq> [] \<and> ParseFloat num = Inr w"
proof -
  from m obtain r where r: "find_rx (lit v @ value_unit) buf = Some r"
    by (auto simp: Match_def)
  from submatch_value_unit[OF r] obtain whole sign ip fp u where
    sub: "r = [whole, sign @ ip @ ''.'' @ fp, u]" and sign: "sign = [] \<or> sign = ''-''"
    and ip: "ip \<noteq> []" "list_all is_digit ip" and fp: "fp \<noteq> []" "list_all is_digit fp"
    and u: "u \<noteq> []" and l': "length ip \<le> length buf"
    by blast
  from l' len have l: "length ip \<le> 128" by simp
  from ParseFloat_decimal[OF sign ip fp l] obtain w where w: "ParseFloat (sign @ ip @ ''.'' @ fp) = Inr w"
    by blast
  have "FindStringSubmatch (lit v @ value_unit) buf = [whole, sign @ ip @ ''.'' @ fp, u]"
    by (simp add: FindStringSubmatch_def r sub)
  with ip u w show ?thesis by simp
qed

lemma DirectCommand_success:
  assumes "DirectCommand c command regex = Some ((b, None), c')"
  shows "\<exists>buf. b = Some buf \<and> Match regex buf \<and> length buf = 128"
proof -
  define c1 where "c1 = c\<lparr>wlog := wlog c @ [command @ CRLF]\<rparr>"
  from assms obtain buf where b: "b = Some buf"
    and aw: "await regex (clock c1) False make_buf c1 = Some (Inr (True, buf), c')"
    by (auto simp: DirectCommand_def Write_def c1_def split: option.splits sum.splits prod.splits if_splits)
  from await_awaited[OF aw] have "Match regex buf \<and> length buf = 128"
    by (auto simp: awaited_def make_buf_def)
  with b show ?thesis by blast
qed

lemma measure_cmd_never_fails:
  assumes "DirectCommand c command (lit v @ value_unit) = Some ((b, None), c')"
  shows "\<exists>buf whole num u w.
           b = Some buf \<and> FindStringSubmatch (lit v @ value_unit) buf = [whole, num, u]
           \<and> num \<noteq> [] \<and> u \<noteq> [] \<and> ParseFloat num = Inr w
           \<and> measure_cmd c command (lit v @ value_unit) =
               Some (Returned (\<lparr>mWeight = w, mUnit = u\<rparr>, None), c')"
proof -
  from DirectCommand_success[OF assms] obtain buf where b: "b = Some buf"
    and m: "Match (lit v @ value_unit) buf" and len: "length buf = 128"
    by blast
  from frame_parses[OF m] len obtain whole num u w where
    fs: "FindStringSubmatch (lit v @ value_unit) buf = [whole, num, u]"
    and ne: "num \<noteq> []" "u \<noteq> []" and w: "ParseFloat num = Inr w"
    by auto
  have "measure_cmd c command (lit v @ value_unit) = Some (Returned (\<lparr>mWeight = w, mUnit = u\<rparr>, None), c')"
    unfolding measure_cmd_def assms b by (simp add: fs index_def w)
  with b fs ne w show ?thesis by simp
qed

lemmas parse_defs =
  ParseFloat_def is_digit_def digits_val_def digit_val_def float64_overflow_def
  value_unit_def digit_def letter_def

section \<open>The acquisition loop over a run of reads\<close>

lemma Since_less: "int (clock c) - int start < timeout \<Longrightarrow> Since c start < timeout"
  by (simp add: Since_def min_def)

lemma collect_chunks:
  assumes "delivers (reads c) (nread c) evs"
    and "evs \<noteq> [] \<longrightarrow> int (clock c) - int start + int (sum_list (map fst (butlast evs))) < timeout"
    and "i + int (matching_reads buf (map snd evs)) = n"
    and "evs \<noteq> [] \<longrightarrow> i + int (matching_reads buf (map snd (butlast evs))) < n"
    and "length buf \<le> 128"
  shows "\<exists>ws'. collect n timeout start i ws buf c =
             Some (Fallthrough (ws @ ws'),
                   c\<lparr>nread := nread c + length evs, clock := clock c + sum_list (map fst evs)\<rparr>)
           \<and> length ws' = matching_reads buf (map snd evs)"
  using assms
proof (induction evs arbitrary: i ws buf c)
  case Nil
  then have "collect n timeout start i ws buf c = Some (Fallthrough ws, c)"
    by (subst collect.simps) simp
  then show ?case by simp
next
  case (Cons ev es)
  obtain d b where ev: "ev = (d, b)" by (cases ev)
  define c1 where "c1 = c\<lparr>nread := Suc (nread c), clock := clock c + d\<rparr>"
  define b1 where "b1 = overwrite buf b"
  have lb: "length b1 \<le> 128"
    using Cons.prems(5) by (simp add: b1_def length_overwrite)
  from Cons.prems(1) have rd: "reads c (nread c) = Delivers d b"
    and rest: "delivers (reads c1) (nread c1) es"
    by (simp_all add: ev c1_def)
  from Cons.prems(4) have lt: "i < n"
    using of_nat_0_le_iff[of "matching_reads buf (map snd (butlast (ev # es)))", where ?'a = int] by simp
  from Cons.prems(2) have "int (clock c) - int start < timeout"
    using of_nat_0_le_iff[of "sum_list (map fst (butlast (ev # es)))", where ?'a = int] by simp
  then have go: "Since c start < timeout"
    by (rule Since_less)
  have rdc: "Read c buf = Some ((None, b1), c1)"
    using rd by (simp add: Read_def c1_def b1_def)
  have tm: "es \<noteq> [] \<longrightarrow> int (clock c1) - int start + int (sum_list (map fst (butlast es))) < timeout"
    using Cons.prems(2) by (auto simp: c1_def ev)
  have fin: "nread c1 + length es = nread c + length (ev # es)"
    "clock c1 + sum_list (map fst es) = clock c + sum_list (map fst (ev # es))"
    by (simp_all add: c1_def ev)
  have upd: "c1\<lparr>nread := nread c1 + length es, clock := clock c1 + sum_list (map fst es)\<rparr> =
      c\<lparr>nread := nread c + length (ev # es), clock := clock c + sum_list (map fst (ev # es))\<rparr>"
    by (simp add: c1_def ev)
  show ?case
  proof (cases "Match weightRegex b1")
    case True
    then have m: "Match (lit ''ST'' @ value_unit) b1"
      by (simp add: weightRegex_def)
    from frame_parses[OF m lb] obtain whole num u w where
      fs: "FindStringSubmatch weightRegex b1 = [whole, num, u]" and w: "ParseFloat num = Inr w"
      by (auto simp: weightRegex_def)
    have un: "collect n timeout start i ws buf c =
        collect n timeout start (i + 1) (ws @ [\<lparr>mWeight = w, mUnit = u\<rparr>]) b1 c1"
      using lt go True by (subst collect.simps) (simp add: rdc fs index_def w)
    have cnt: "(i + 1) + int (matching_reads b1 (map snd es)) = n"
      using Cons.prems(3) True by (simp add: ev b1_def)
    have lst: "es \<noteq> [] \<longrightarrow> (i + 1) + int (matching_reads b1 (map snd (butlast es))) < n"
      using Cons.prems(4) True by (auto simp: ev b1_def)
    from Cons.IH[OF rest tm cnt lst lb, of "ws @ [\<lparr>mWeight = w, mUnit = u\<rparr>]"]
    obtain ws' where "collect n timeout start (i + 1) (ws @ [\<lparr>mWeight = w, mUnit = u\<rparr>]) b1 c1 =
        Some (Fallthrough ((ws @ [\<lparr>mWeight = w, mUnit = u\<rparr>]) @ ws'),
              c1\<lparr>nread := nread c1 + length es, clock := clock c1 + sum_list (map fst es)\<rparr>)"
      and "length ws' = matching_reads b1 (map snd es)"
      by blast
    then have "collect n timeout start i ws buf c =
        Some (Fallthrough (ws @ (\<lparr>mWeight = w, mUnit = u\<rparr> # ws')),
          c\<lparr>nread := nread c + length (ev # es), clock := clock c + sum_list (map fst (ev # es))\<rparr>)
        \<and> length (\<lparr>mWeight = w, mUnit = u\<rparr> # ws') = matching_reads buf (map snd (ev # es))"
      using un upd True by (simp add: ev b1_def)
    then show ?thesis by blast
  next
    case False
    have un: "collect n timeout start i ws buf c = collect n timeout start i ws b1 c1"
      using lt go False by (subst collect.simps) (simp add: rdc)
    have cnt: "i + int (matching_reads b1 (map snd es)) = n"
      using Cons.prems(3) False by (simp add: ev b1_def)
    have lst: "es \<noteq> [] \<longrightarrow> i + int (matching_reads b1 (map snd (butlast es))) < n"
      using Cons.prems(4) False by (auto simp: ev b1_def)
    from Cons.IH[OF rest tm cnt lst lb, of ws]
    obtain ws' where "collect n timeout start i ws b1 c1 =
        Some (Fallthrough (ws @ ws'),
              c1\<lparr>nread := nread c1 + length es, clock := clock c1 + sum_list (map fst es)\<rparr>)"
      and "length ws' = matching_reads b1 (map snd es)"
      by blast
    then have "collect n timeout start i ws buf c =
        Some (Fallthrough (ws @ ws'),
          c\<lparr>nread := nread c + length (ev # es), clock := clock c + sum_list (map fst (ev # es))\<rparr>)
        \<and> length ws' = matching_reads buf (map snd (ev # es))"
      using un upd False by (simp add: ev b1_def)
    then show ?thesis by blast
  qed
qed

section \<open>One command and its reply, seen from the device\<close>

lemma SetTarget_sequence:
  "SetTarget c (25 / 2) ''g'' (3602879701896397 / 2 ^ 55) (3602879701896397 / 2 ^ 54) False =
     (case DirectCommand c ''A10 0 12.50 g'' (lit ''A10 A'') of
        None \<Rightarrow> None
      | Some ((_, Some err), c1) \<Rightarrow> Some (Some err, c1)
      | Some ((_, None), c1) \<Rightarrow>
          (case DirectCommand c1 ''A10 1 0.10 g'' (lit ''A10 A'') of
             None \<Rightarrow> None
           | Some ((_, Some err), c2) \<Rightarrow> Some (Some err, c2)
           | Some ((_, None), c2) \<Rightarrow> acked c2 ''A10 2 0.20 g'' (lit ''A10 A'')))"
proof -
  have fmt: "''A10 0 '' @ FormatFloat_f (25 / 2) 2 @ '' '' @ ''g'' @ [] = ''A10 0 12.50 g''"
    "''A10 1 '' @ FormatFloat_f (3602879701896397 / 2 ^ 55) 2 @ '' '' @ ''g'' @ [] = ''A10 1 0.10 g''"
    "''A10 2 '' @ FormatFloat_f (3602879701896397 / 2 ^ 54) 2 @ '' '' @ ''g'' @ [] = ''A10 2 0.20 g''"
    unfolding format_12_5 format_0_1 format_0_2 by simp_all
  show ?thesis
    unfolding SetTarget_def if_False fmt ..
qed

lemma Match_lit: "Match (lit v) b \<longleftrightarrow> (\<exists>pre post. b = pre @ v @ post)"
proof -
  have "here (lit v) t \<noteq> None \<longleftrightarrow> (\<exists>post. t = v @ post)" for t
  proof -
    have "here (lit v @ []) t \<noteq> None \<longleftrightarrow> take (length v) t = v"
      unfolding here_lit by simp
    also have "\<dots> \<longleftrightarrow> (\<exists>post. t = v @ post)"
    proof
      assume "take (length v) t = v"
      then have "t = v @ drop (length v) t"
        using append_take_drop_id[of "length v" t] by simp
      then show "\<exists>post. t = v @ post" ..
    next
      assume "\<exists>post. t = v @ post"
      then show "take (length v) t = v" by auto
    qed
    finally show ?thesis by simp
  qed
  then show ?thesis
    unfolding Match_def find_rx_iff by auto
qed

lemma delivers_nth:
  "delivers rs p evs \<Longrightarrow> i < length evs \<Longrightarrow> rs (p + i) = Delivers (fst (evs ! i)) (snd (evs ! i))"
proof (induction evs arbitrary: p i)
  case Nil
  then show ?case by simp
next
  case (Cons ev es)
  obtain d b where ev: "ev = (d, b)" by (cases ev)
  show ?case
  proof (cases i)
    case 0
    with Cons.prems ev show ?thesis by simp
  next
    case (Suc j)
    with Cons.prems ev have "delivers rs (Suc p) es" "j < length es" by simp_all
    from Cons.IH[OF this] Suc show ?thesis by simp
  qed
qed

lemma DirectCommand_acknowledged:
  assumes w: "writes c (length (wlog c)) = None"
    and r: "reads c (nread c) = Delivers d reply" and len: "length reply \<le> 128"
    and ack: "\<exists>pre post. reply = pre @ v @ post"
  shows "DirectCommand c command (lit v) =
           Some ((Some (overwrite make_buf reply), None), replied c command d)"
proof -
  define c1 where "c1 = c\<lparr>wlog := wlog c @ [command @ CRLF]\<rparr>"
  from ack obtain pre post where "reply = pre @ v @ post" by blast
  then have "overwrite make_buf reply = pre @ v @ (post @ replicate (128 - length reply) NUL)"
    using len by (simp add: overwrite_def make_buf_def)
  then have m: "Match (lit v) (foldl overwrite make_buf (map snd [(d, reply)]))"
    unfolding Match_lit by auto
  have "await (lit v) (clock c1) False make_buf c1 =
      Some (Inr (True, foldl overwrite make_buf (map snd [(d, reply)])),
            c1\<lparr>nread := nread c1 + length [(d, reply)],
               clock := clock c1 + sum_list (map fst [(d, reply)])\<rparr>)"
    by (rule await_chunks) (use r m in \<open>simp_all add: c1_def Second_def\<close>)
  then show ?thesis
    using w by (simp add: DirectCommand_def Write_def c1_def replied_def)
qed

lemma DirectCommand_write_fails:
  "writes c (length (wlog c)) = Some e \<Longrightarrow>
     DirectCommand c command regex = Some ((None, Some e), c\<lparr>wlog := wlog c @ [command @ CRLF]\<rparr>)"
  by (simp add: DirectCommand_def Write_def)

lemma DirectCommand_read_fails:
  assumes "writes c (length (wlog c)) = None" and "reads c (nread c) = Fails d e"
  shows "DirectCommand c command regex = Some ((None, Some e), replied c command d)"
proof -
  define c1 where "c1 = c\<lparr>wlog := wlog c @ [command @ CRLF]\<rparr>"
  have "Since c1 (clock c1) < 5 * Second"
    by (simp add: Since_def MaxInt64_def Second_def)
  then have "await regex (clock c1) False make_buf c1 =
      Some (Inl e, c1\<lparr>nread := Suc (nread c1), clock := clock c1 + d\<rparr>)"
    using assms(2) by (subst await.simps) (simp add: Read_def c1_def)
  then show ?thesis
    using assms(1) by (simp add: DirectCommand_def Write_def c1_def replied_def)
qed

lemma await_unmatched:
  assumes "delivers (reads c) (nread c) evs" "evs \<noteq> []"
    and "int (clock c) - int start + int (sum_list (map fst (butlast evs))) < 5 * Second"
    and "5 * Second \<le> int (clock c) - int start + int (sum_list (map fst evs))"
    and "\<forall>k. 0 < k \<and> k \<le> length evs \<longrightarrow> \<not> Match regex (foldl overwrite buf (map snd (take k evs)))"
  shows "await regex start False buf c =
           Some (Inr (False, foldl overwrite buf (map snd evs)),
                 c\<lparr>nread := nread c + length evs, clock := clock c + sum_list (map fst evs)\<rparr>)"
  using assms
proof (induction evs arbitrary: buf c)
  case Nil
  then show ?case by simp
next
  case (Cons ev es)
  obtain d b where ev: "ev = (d, b)" by (cases ev)
  define c1 where "c1 = c\<lparr>nread := Suc (nread c), clock := clock c + d\<rparr>"
  define b1 where "b1 = overwrite buf b"
  from Cons.prems(1) have rd: "reads c (nread c) = Delivers d b"
    and rest: "delivers (reads c1) (nread c1) es"
    by (simp_all add: ev c1_def)
  from Cons.prems(3) have "int (clock c) - int start < 5 * Second"
    using of_nat_0_le_iff[of "sum_list (map fst (butlast (ev # es)))", where ?'a = int] by linarith
  then have go: "Since c start < 5 * Second"
    by (simp add: Since_less_5s)
  from Cons.prems(5)[rule_format, of 1] have nm1: "\<not> Match regex b1"
    by (simp add: ev b1_def)
  have un: "await regex start False buf c = await regex start False b1 c1"
    using go rd nm1 by (subst await.simps) (simp add: Read_def c1_def b1_def)
  show ?case
  proof (cases "es = []")
    case True
    with Cons.prems(4) have "\<not> Since c1 start < 5 * Second"
      by (simp add: Since_less_5s c1_def ev)
    then have "await regex start False b1 c1 = Some (Inr (False, b1), c1)"
      by (subst await.simps) simp
    with un True show ?thesis
      by (simp add: ev b1_def c1_def)
  next
    case False
    have tm: "int (clock c1) - int start + int (sum_list (map fst (butlast es))) < 5 * Second"
      using Cons.prems(3) False by (simp add: c1_def ev)
    have late: "5 * Second \<le> int (clock c1) - int start + int (sum_list (map fst es))"
      using Cons.prems(4) by (simp add: c1_def ev)
    have nm: "\<forall>k. 0 < k \<and> k \<le> length es \<longrightarrow> \<not> Match regex (foldl overwrite b1 (map snd (take k es)))"
    proof (intro allI impI)
      fix k assume "0 < k \<and> k \<le> length es"
      with Cons.prems(5)[rule_format, of "Suc k"]
      show "\<not> Match regex (foldl overwrite b1 (map snd (take k es)))"
        by (simp add: ev b1_def)
    qed
    from Cons.IH[OF rest False tm late nm] un show ?thesis
      by (simp add: ev b1_def c1_def)
  qed
qed

lemma DirectCommand_times_out:
  assumes "writes c (length (wlog c)) = None"
    and "delivers (reads c) (nread c) evs" and "evs \<noteq> []"
    and "int (sum_list (map fst (butlast evs))) < 5 * Second"
    and "5 * Second \<le> int (sum_list (map fst evs))"
    and "\<forall>k. 0 < k \<and> k \<le> length evs \<longrightarrow>
           \<not> Match regex (foldl overwrite make_buf (map snd (take k evs)))"
  shows "DirectCommand c command regex =
           Some ((Some (foldl overwrite make_buf (map snd evs)),
                  Some (timed_out command regex (foldl overwrite make_buf (map snd evs)))),
                 c\<lparr>wlog := wlog c @ [command @ CRLF], nread := nread c + length evs,
                   clock := clock c + sum_list (map fst evs)\<rparr>)"
proof -
  define c1 where "c1 = c\<lparr>wlog := wlog c @ [command @ CRLF]\<rparr>"
  have "await regex (clock c1) False make_buf c1 =
          Some (Inr (False, foldl overwrite make_buf (map snd evs)),
                c1\<lparr>nread := nread c1 + length evs, clock := clock c1 + sum_list (map fst evs)\<rparr>)"
    by (rule await_unmatched) (use assms in \<open>simp_all add: c1_def\<close>)
  then show ?thesis
    using assms(1) by (simp add: DirectCommand_def Write_def c1_def)
qed

section \<open>Properties\<close>

text \<open>
  C4. When both the measurement count and the timeout are zero (unbounded),
  \<open>WeightOnKey\<close> returns at once with an empty list and the configuration error,
  and the connection is returned exactly as it was given: nothing has been written
  and nothing read.
\<close>

theorem WeightOnKey_unbounded_rejected:
  "WeightOnKey intInf c 0 0 =
     Some (Returned ([], Some (Errorf ''timeout and numMeasurements cannot both be infinite (0)'')), c)"
  by (simp add: WeightOnKey_def)

text \<open>
  C3. On the reply \<^verbatim>\<open>WS 3\<close> the door-status query does not return the digit: it
  has sent the text \<^verbatim>\<open>WS ([0-9])\<close> as the command, matched the reply against the
  group-less pattern \<^verbatim>\<open>WS\<close>, and indexing the one-element submatch slice at 1
  panics.
\<close>

theorem GetDoorStatus_panics:
  "map_option (\<lambda>(r, c). (r, wlog c))
     (GetDoorStatus (device [Delivers 1000 (''WS 3'' @ CRLF)] Blocks)) =
   Some (Panicked (IndexOutOfRange 1 1), [''WS ([0-9])'' @ CRLF])"
  by (simp add: GetDoorStatus_def run_defs)

text \<open>
  C2. After the start command is acknowledged, a failing read makes \<open>WeightOnKey\<close>
  return the read's error, and the only command ever written is the start command:
  no stop command is issued on this exit path.
\<close>

theorem WeightOnKey_read_failure_no_stop:
  "map_option (\<lambda>(r, c). (r, wlog c))
     (WeightOnKey intInf (device [Delivers 1000 (''ST A'' @ CRLF), Fails 1000 (IOError 7)] Blocks) 3 0) =
   Some (Returned ([], Some (IOError 7)), [''ST 1'' @ CRLF])"
  by (simp add: WeightOnKey_def run_defs)

text \<open>
  C6. \<open>SetTarget\<close> with value 12.5, unit \<^verbatim>\<open>g\<close>, upper tolerance 0.1, lower
  tolerance 0.2 (the \<^verbatim>\<open>float64\<close> values nearest to them) and absolute tolerance,
  on a device that answers the first sub-commands, as many as \<open>acks\<close> lists, each
  with a reply containing \<^verbatim>\<open>A10 A\<close>, the writes of these sub-commands succeeding.
  If there are three such replies, exactly the commands \<^verbatim>\<open>A10 0 12.50 g\<close>,
  \<^verbatim>\<open>A10 1 0.10 g\<close>, \<^verbatim>\<open>A10 2 0.20 g\<close> are written, in this order, one reply read
  for each, and no error is returned. If there are fewer and the next sub-command
  fails, because its write fails, because the read for its reply fails, or because
  what the device sends never matches \<^verbatim>\<open>A10 A\<close> until the five seconds are over,
  then the error of that sub-command is returned (the write error, the read error, the
  timeout error naming that sub-command) and the commands written end with the
  failing one: no further sub-command is sent.
\<close>

theorem SetTarget_three_commands:
  assumes acks: "\<forall>(d, r) \<in> set acks. length r \<le> 128 \<and> (\<exists>pre post. r = pre @ ''A10 A'' @ post)"
    and rd: "delivers (reads c) (nread c) acks"
    and wr: "\<forall>i<length acks. writes c (length (wlog c) + i) = None"
    and n: "length acks \<le> 3"
  shows
   "(length acks = 3 \<longrightarrow>
       SetTarget c (25 / 2) ''g'' (3602879701896397 / 2 ^ 55) (3602879701896397 / 2 ^ 54) False =
         Some (None,
               c\<lparr>wlog := wlog c @ [''A10 0 12.50 g'' @ CRLF, ''A10 1 0.10 g'' @ CRLF,
                                    ''A10 2 0.20 g'' @ CRLF],
                 nread := nread c + 3, clock := clock c + sum_list (map fst acks)\<rparr>))
    \<and> (length acks < 3 \<and> writes c (length (wlog c) + length acks) = Some e \<longrightarrow>
       SetTarget c (25 / 2) ''g'' (3602879701896397 / 2 ^ 55) (3602879701896397 / 2 ^ 54) False =
         Some (Some e,
               c\<lparr>wlog := wlog c @ take (Suc (length acks))
                                     [''A10 0 12.50 g'' @ CRLF, ''A10 1 0.10 g'' @ CRLF,
                                      ''A10 2 0.20 g'' @ CRLF],
                 nread := nread c + length acks, clock := clock c + sum_list (map fst acks)\<rparr>))
    \<and> (length acks < 3 \<and> writes c (length (wlog c) + length acks) = None
        \<and> reads c (nread c + length acks) = Fails d e \<longrightarrow>
       SetTarget c (25 / 2) ''g'' (3602879701896397 / 2 ^ 55) (3602879701896397 / 2 ^ 54) False =
         Some (Some e,
               c\<lparr>wlog := wlog c @ take (Suc (length acks))
                                     [''A10 0 12.50 g'' @ CRLF, ''A10 1 0.10 g'' @ CRLF,
                                      ''A10 2 0.20 g'' @ CRLF],
                 nread := Suc (nread c + length acks),
                 clock := clock c + sum_list (map fst acks) + d\<rparr>))
    \<and> (length acks < 3 \<and> writes c (length (wlog c) + length acks) = None
        \<and> delivers (reads c) (nread c + length acks) evs \<and> evs \<noteq> []
        \<and> int (sum_list (map fst (butlast evs))) < 5 * Second
        \<and> 5 * Second \<le> int (sum_list (map fst evs))
        \<and> (\<forall>k. 0 < k \<and> k \<le> length evs \<longrightarrow>
              \<not> Match (lit ''A10 A'') (foldl overwrite make_buf (map snd (take k evs)))) \<longrightarrow>
       SetTarget c (25 / 2) ''g'' (3602879701896397 / 2 ^ 55) (3602879701896397 / 2 ^ 54) False =
         Some (Some (timed_out ([''A10 0 12.50 g'', ''A10 1 0.10 g'', ''A10 2 0.20 g''] ! length acks)
                       (lit ''A10 A'') (foldl overwrite make_buf (map snd evs))),
               c\<lparr>wlog := wlog c @ take (Suc (length acks))
                                     [''A10 0 12.50 g'' @ CRLF, ''A10 1 0.10 g'' @ CRLF,
                                      ''A10 2 0.20 g'' @ CRLF],
                 nread := nread c + length acks + length evs,
                 clock := clock c + sum_list (map fst acks) + sum_list (map fst evs)\<rparr>))"
proof -
  define texts where "texts = [''A10 0 12.50 g'', ''A10 1 0.10 g'', ''A10 2 0.20 g'']"
  define cmds where "cmds = map (\<lambda>t. t @ CRLF) texts"
  define s where "s j = c\<lparr>wlog := wlog c @ take j cmds, nread := nread c + j,
      clock := clock c + sum_list (map fst (take j acks))\<rparr>" for j
  define X where "X = SetTarget c (25 / 2) ''g'' (3602879701896397 / 2 ^ 55) (3602879701896397 / 2 ^ 54) False"
  have lt: "length texts = 3" "length cmds = 3"
    by (simp_all add: cmds_def texts_def)
  have s0: "s 0 = c"
    by (simp add: s_def)
  have sj: "wlog (s j) = wlog c @ take j cmds" "nread (s j) = nread c + j"
    "reads (s j) = reads c" "writes (s j) = writes c"
    "clock (s j) = clock c + sum_list (map fst (take j acks))" for j
    by (simp_all add: s_def)
  have lw: "j \<le> 3 \<Longrightarrow> length (wlog (s j)) = length (wlog c) + j" for j
    by (simp add: sj lt)
  have tk: "take j cmds @ [texts ! j @ CRLF] = take (Suc j) cmds" if "j < 3" for j
  proof -
    from that have "cmds ! j = texts ! j @ CRLF"
      unfolding cmds_def by (simp add: lt)
    with that show ?thesis
      by (simp add: take_Suc_conv_app_nth[of j cmds] lt)
  qed
  have ackd: "DirectCommand (s j) (texts ! j) (lit ''A10 A'') =
      Some ((Some (overwrite make_buf (snd (acks ! j))), None), s (Suc j))" if j: "j < length acks" for j
  proof -
    from j n have j3: "j < 3" by simp
    have w: "writes (s j) (length (wlog (s j))) = None"
      using wr j j3 by (simp add: lw sj)
    have r: "reads (s j) (nread (s j)) = Delivers (fst (acks ! j)) (snd (acks ! j))"
      using delivers_nth[OF rd j] by (simp add: sj)
    from acks j have "length (snd (acks ! j)) \<le> 128 \<and> (\<exists>pre post. snd (acks ! j) = pre @ ''A10 A'' @ post)"
      using nth_mem[OF j] by (cases "acks ! j") auto
    then have "DirectCommand (s j) (texts ! j) (lit ''A10 A'') =
        Some ((Some (overwrite make_buf (snd (acks ! j))), None), replied (s j) (texts ! j) (fst (acks ! j)))"
      using DirectCommand_acknowledged[OF w r] by blast
    moreover have "replied (s j) (texts ! j) (fst (acks ! j)) = s (Suc j)"
      using j tk[OF j3] by (simp add: replied_def s_def take_Suc_conv_app_nth[of j acks] add.assoc)
    ultimately show ?thesis by simp
  qed
  have fails: "X = Some (Some err, s')"
    if lt3: "length acks < 3"
      and dc: "DirectCommand (s (length acks)) (texts ! length acks) (lit ''A10 A'') = Some ((b, Some err), s')"
    for b err s'
  proof -
    from lt3 consider "length acks = 0" | "length acks = 1" | "length acks = 2"
      by atomize_elim arith
    then show ?thesis
    proof cases
      case 1
      with dc show ?thesis
        unfolding X_def SetTarget_sequence by (simp add: s0 texts_def)
    next
      case 2
      with ackd[of 0] dc show ?thesis
        unfolding X_def SetTarget_sequence by (simp add: s0 texts_def)
    next
      case 3
      with ackd[of 0] ackd[of 1] dc show ?thesis
        unfolding X_def SetTarget_sequence by (simp add: s0 texts_def numeral_2_eq_2 acked_def)
    qed
  qed
  have cm: "cmds = [''A10 0 12.50 g'' @ CRLF, ''A10 1 0.10 g'' @ CRLF, ''A10 2 0.20 g'' @ CRLF]"
    by (simp add: cmds_def texts_def)
  have 1: "X = Some (None, c\<lparr>wlog := wlog c @ cmds, nread := nread c + 3,
      clock := clock c + sum_list (map fst acks)\<rparr>)" if "length acks = 3"
  proof -
    have "X = Some (None, s 3)"
      using ackd[of 0] ackd[of 1] ackd[of 2] that
      unfolding X_def SetTarget_sequence
      by (simp add: s0 texts_def acked_def numeral_2_eq_2 numeral_3_eq_3)
    moreover have "s 3 = c\<lparr>wlog := wlog c @ cmds, nread := nread c + 3,
        clock := clock c + sum_list (map fst acks)\<rparr>"
      using that by (simp add: s_def lt)
    ultimately show ?thesis by simp
  qed
  have 2: "X = Some (Some e,
      c\<lparr>wlog := wlog c @ take (Suc (length acks)) cmds, nread := nread c + length acks,
        clock := clock c + sum_list (map fst acks)\<rparr>)"
    if l: "length acks < 3" and w: "writes c (length (wlog c) + length acks) = Some e"
  proof -
    have "writes (s (length acks)) (length (wlog (s (length acks)))) = Some e"
      using l w by (simp add: lw sj(2-5))
    from fails[OF l DirectCommand_write_fails[OF this]]
    have "X = Some (Some e, (s (length acks))\<lparr>wlog := wlog (s (length acks)) @ [texts ! length acks @ CRLF]\<rparr>)" .
    moreover have "(s (length acks))\<lparr>wlog := wlog (s (length acks)) @ [texts ! length acks @ CRLF]\<rparr> =
        c\<lparr>wlog := wlog c @ take (Suc (length acks)) cmds, nread := nread c + length acks,
          clock := clock c + sum_list (map fst acks)\<rparr>"
      using tk[OF l] by (simp add: s_def)
    ultimately show ?thesis by simp
  qed
  have 3: "X = Some (Some e,
      c\<lparr>wlog := wlog c @ take (Suc (length acks)) cmds, nread := Suc (nread c + length acks),
        clock := clock c + sum_list (map fst acks) + d\<rparr>)"
    if l: "length acks < 3" and w: "writes c (length (wlog c) + length acks) = None"
      and r: "reads c (nread c + length acks) = Fails d e"
  proof -
    have "writes (s (length acks)) (length (wlog (s (length acks)))) = None"
      "reads (s (length acks)) (nread (s (length acks))) = Fails d e"
      using l w r by (simp_all add: lw sj(2-5))
    from fails[OF l DirectCommand_read_fails[OF this]]
    have "X = Some (Some e, replied (s (length acks)) (texts ! length acks) d)" .
    moreover have "replied (s (length acks)) (texts ! length acks) d =
        c\<lparr>wlog := wlog c @ take (Suc (length acks)) cmds, nread := Suc (nread c + length acks),
          clock := clock c + sum_list (map fst acks) + d\<rparr>"
      using tk[OF l] by (simp add: s_def replied_def)
    ultimately show ?thesis by simp
  qed
  have 4: "X = Some (Some (timed_out (texts ! length acks) (lit ''A10 A'') (foldl overwrite make_buf (map snd evs))),
      c\<lparr>wlog := wlog c @ take (Suc (length acks)) cmds, nread := nread c + length acks + length evs,
        clock := clock c + sum_list (map fst acks) + sum_list (map fst evs)\<rparr>)"
    if l: "length acks < 3" and w: "writes c (length (wlog c) + length acks) = None"
      and rd': "delivers (reads c) (nread c + length acks) evs" and ne: "evs \<noteq> []"
      and tm: "int (sum_list (map fst (butlast evs))) < 5 * Second"
        "5 * Second \<le> int (sum_list (map fst evs))"
      and nm: "\<forall>k. 0 < k \<and> k \<le> length evs \<longrightarrow>
              \<not> Match (lit ''A10 A'') (foldl overwrite make_buf (map snd (take k evs)))"
  proof -
    have "writes (s (length acks)) (length (wlog (s (length acks)))) = None"
      "delivers (reads (s (length acks))) (nread (s (length acks))) evs"
      using l w rd' by (simp_all add: lw sj(2-5))
    from fails[OF l DirectCommand_times_out[OF this ne tm nm]]
    have "X = Some (Some (timed_out (texts ! length acks) (lit ''A10 A'') (foldl overwrite make_buf (map snd evs))),
        (s (length acks))\<lparr>wlog := wlog (s (length acks)) @ [texts ! length acks @ CRLF],
           nread := nread (s (length acks)) + length evs,
           clock := clock (s (length acks)) + sum_list (map fst evs)\<rparr>)" .
    moreover have "(s (length acks))\<lparr>wlog := wlog (s (length acks)) @ [texts ! length acks @ CRLF],
           nread := nread (s (length acks)) + length evs,
           clock := clock (s (length acks)) + sum_list (map fst evs)\<rparr> =
        c\<lparr>wlog := wlog c @ take (Suc (length acks)) cmds, nread := nread c + length acks + length evs,
          clock := clock c + sum_list (map fst acks) + sum_list (map fst evs)\<rparr>"
      using tk[OF l] by (simp add: s_def)
    ultimately show ?thesis by simp
  qed
  show ?thesis
    unfolding X_def[symmetric] texts_def[symmetric] cm[symmetric]
    using 1 2 3 4 by blast
qed

theorem SetTarget_three_commands_witness:
  "map_option (\<lambda>(e, c). (e, wlog c))
     (SetTarget
        (device [Delivers 1000 (''A10 A'' @ CRLF), Delivers 1000 (''A10 A'' @ CRLF),
                 Delivers 1000 (''A10 A'' @ CRLF)] Blocks)
        (25 / 2) ''g'' (3602879701896397 / 2 ^ 55) (3602879701896397 / 2 ^ 54) False) =
   Some (None, [''A10 0 12.50 g'' @ CRLF, ''A10 1 0.10 g'' @ CRLF, ''A10 2 0.20 g'' @ CRLF])
   \<and> map_option (\<lambda>(e, c). (e, wlog c))
     (SetTarget
        (device [Delivers 1000 (''ES'' @ CRLF)] (Delivers 5000000000 []))
        (25 / 2) ''g'' (3602879701896397 / 2 ^ 55) (3602879701896397 / 2 ^ 54) False) =
   Some (Some (timed_out ''A10 0 12.50 g'' (lit ''A10 A'') (''ES'' @ CRLF @ replicate 124 NUL)),
         [''A10 0 12.50 g'' @ CRLF])
   \<and> map_option (\<lambda>(e, c). (e, wlog c))
     (SetTarget
        (device [Delivers 1000 (''A10 A'' @ CRLF), Fails 1000 (IOError 7)] Blocks)
        (25 / 2) ''g'' (3602879701896397 / 2 ^ 55) (3602879701896397 / 2 ^ 54) False) =
   Some (Some (IOError 7), [''A10 0 12.50 g'' @ CRLF, ''A10 1 0.10 g'' @ CRLF])
   \<and> map_option (\<lambda>(e, c). (e, wlog c))
     (SetTarget
        (device [Delivers 1000 (''A10 A'' @ CRLF), Delivers 1000 (''A10 A'' @ CRLF)] Blocks
           \<lparr>writes := (\<lambda>k. if k = 2 then Some (IOError 9) else None)\<rparr>)
        (25 / 2) ''g'' (3602879701896397 / 2 ^ 55) (3602879701896397 / 2 ^ 54) False) =
   Some (Some (IOError 9), [''A10 0 12.50 g'' @ CRLF, ''A10 1 0.10 g'' @ CRLF, ''A10 2 0.20 g'' @ CRLF])"
proof (intro conjI)
  have ex: "\<exists>pre post. ''A10 A'' @ CRLF = pre @ ''A10 A'' @ post"
    by (intro exI[of _ "[]"] exI[of _ CRLF]) simp
  define ack where "ack = (1000 :: nat, ''A10 A'' @ CRLF)"
  have ack: "length (snd ack) \<le> 128 \<and> (\<exists>pre post. snd ack = pre @ ''A10 A'' @ post)"
    using ex by (simp add: ack_def CRLF_def)
  {
    define d where "d = device [Delivers 1000 (''A10 A'' @ CRLF), Delivers 1000 (''A10 A'' @ CRLF),
                 Delivers 1000 (''A10 A'' @ CRLF)] Blocks"
    have h: "\<forall>(d, r) \<in> set [ack, ack, ack]. length r \<le> 128 \<and> (\<exists>pre post. r = pre @ ''A10 A'' @ post)"
      "delivers (reads d) (nread d) [ack, ack, ack]"
      "\<forall>i<length [ack, ack, ack]. writes d (length (wlog d) + i) = None"
      "length [ack, ack, ack] \<le> 3"
      using ack by (auto simp: d_def device_def script_def ack_def)
    from SetTarget_three_commands[OF h]
    have "SetTarget d (25 / 2) ''g'' (3602879701896397 / 2 ^ 55) (3602879701896397 / 2 ^ 54) False =
        Some (None, d\<lparr>wlog := wlog d @ [''A10 0 12.50 g'' @ CRLF, ''A10 1 0.10 g'' @ CRLF,
                                    ''A10 2 0.20 g'' @ CRLF],
                 nread := nread d + 3, clock := clock d + sum_list (map fst [ack, ack, ack])\<rparr>)"
      by simp
    then have "map_option (\<lambda>(e, c). (e, wlog c))
        (SetTarget d (25 / 2) ''g'' (3602879701896397 / 2 ^ 55) (3602879701896397 / 2 ^ 54) False) =
        Some (None, [''A10 0 12.50 g'' @ CRLF, ''A10 1 0.10 g'' @ CRLF, ''A10 2 0.20 g'' @ CRLF])"
      by (simp add: d_def device_def)
  }
  then show "map_option (\<lambda>(e, c). (e, wlog c))
     (SetTarget
        (device [Delivers 1000 (''A10 A'' @ CRLF), Delivers 1000 (''A10 A'' @ CRLF),
                 Delivers 1000 (''A10 A'' @ CRLF)] Blocks)
        (25 / 2) ''g'' (3602879701896397 / 2 ^ 55) (3602879701896397 / 2 ^ 54) False) =
   Some (None, [''A10 0 12.50 g'' @ CRLF, ''A10 1 0.10 g'' @ CRLF, ''A10 2 0.20 g'' @ CRLF])" .
  {
    define d where "d = device [Delivers 1000 (''ES'' @ CRLF)] (Delivers 5000000000 [])"
    define evs where "evs = [(1000 :: nat, ''ES'' @ CRLF), (5000000000, [])]"
    have h: "\<forall>(d, r) \<in> set []. length r \<le> 128 \<and> (\<exists>pre post. r = pre @ ''A10 A'' @ post)"
      "delivers (reads d) (nread d) []"
      "\<forall>i<length ([] :: (nat \<times> string) list). writes d (length (wlog d) + i) = None"
      "length ([] :: (nat \<times> string) list) \<le> 3"
      by simp_all
    have nm: "\<forall>k. 0 < k \<and> k \<le> length evs \<longrightarrow>
              \<not> Match (lit ''A10 A'') (foldl overwrite make_buf (map snd (take k evs)))"
    proof (intro allI impI)
      fix k assume "0 < k \<and> k \<le> length evs"
      then have "k = 1 \<or> k = 2" by (auto simp: evs_def)
      then show "\<not> Match (lit ''A10 A'') (foldl overwrite make_buf (map snd (take k evs)))"
        by (auto simp: evs_def run_defs)
    qed
    have f: "length ([] :: (nat \<times> string) list) < 3
        \<and> writes d (length (wlog d) + length ([] :: (nat \<times> string) list)) = None
        \<and> delivers (reads d) (nread d + length ([] :: (nat \<times> string) list)) evs \<and> evs \<noteq> []
        \<and> int (sum_list (map fst (butlast evs))) < 5 * Second
        \<and> 5 * Second \<le> int (sum_list (map fst evs))
        \<and> (\<forall>k. 0 < k \<and> k \<le> length evs \<longrightarrow>
              \<not> Match (lit ''A10 A'') (foldl overwrite make_buf (map snd (take k evs))))"
      using nm by (simp add: d_def device_def script_def evs_def Second_def)
    from SetTarget_three_commands[OF h, where evs = evs] f
    have "SetTarget d (25 / 2) ''g'' (3602879701896397 / 2 ^ 55) (3602879701896397 / 2 ^ 54) False =
         Some (Some (timed_out ([''A10 0 12.50 g'', ''A10 1 0.10 g'', ''A10 2 0.20 g''] ! length ([] :: (nat \<times> string) list))
                       (lit ''A10 A'') (foldl overwrite make_buf (map snd evs))),
               d\<lparr>wlog := wlog d @ take (Suc (length ([] :: (nat \<times> string) list)))
                                     [''A10 0 12.50 g'' @ CRLF, ''A10 1 0.10 g'' @ CRLF,
                                      ''A10 2 0.20 g'' @ CRLF],
                 nread := nread d + length ([] :: (nat \<times> string) list) + length evs,
                 clock := clock d + sum_list (map fst ([] :: (nat \<times> string) list)) + sum_list (map fst evs)\<rparr>)"
      by blast
    then have "map_option (\<lambda>(e, c). (e, wlog c))
        (SetTarget d (25 / 2) ''g'' (3602879701896397 / 2 ^ 55) (3602879701896397 / 2 ^ 54) False) =
        Some (Some (timed_out ''A10 0 12.50 g'' (lit ''A10 A'') (''ES'' @ CRLF @ replicate 124 NUL)),
         [''A10 0 12.50 g'' @ CRLF])"
      by (simp add: d_def device_def evs_def make_buf_def overwrite_def CRLF_def)
  }
  then show "map_option (\<lambda>(e, c). (e, wlog c))
     (SetTarget
        (device [Delivers 1000 (''ES'' @ CRLF)] (Delivers 5000000000 []))
        (25 / 2) ''g'' (3602879701896397 / 2 ^ 55) (3602879701896397 / 2 ^ 54) False) =
   Some (Some (timed_out ''A10 0 12.50 g'' (lit ''A10 A'') (''ES'' @ CRLF @ replicate 124 NUL)),
         [''A10 0 12.50 g'' @ CRLF])" .
  {
    define d where "d = device [Delivers 1000 (''A10 A'' @ CRLF), Fails 1000 (IOError 7)] Blocks"
    have h: "\<forall>(d, r) \<in> set [ack]. length r \<le> 128 \<and> (\<exists>pre post. r = pre @ ''A10 A'' @ post)"
      "delivers (reads d) (nread d) [ack]"
      "\<forall>i<length [ack]. writes d (length (wlog d) + i) = None"
      "length [ack] \<le> 3"
      using ack by (auto simp: d_def device_def script_def ack_def)
    have f: "length [ack] < 3 \<and> writes d (length (wlog d) + length [ack]) = None
        \<and> reads d (nread d + length [ack]) = Fails 1000 (IOError 7)"
      by (simp add: d_def device_def script_def)
    from SetTarget_three_commands[OF h, where e = "IOError 7" and d = 1000] f
    have "SetTarget d (25 / 2) ''g'' (3602879701896397 / 2 ^ 55) (3602879701896397 / 2 ^ 54) False =
         Some (Some (IOError 7),
               d\<lparr>wlog := wlog d @ take (Suc (length [ack]))
                                     [''A10 0 12.50 g'' @ CRLF, ''A10 1 0.10 g'' @ CRLF,
                                      ''A10 2 0.20 g'' @ CRLF],
                 nread := Suc (nread d + length [ack]),
                 clock := clock d + sum_list (map fst [ack]) + 1000\<rparr>)"
      by blast
    then have "map_option (\<lambda>(e, c). (e, wlog c))
        (SetTarget d (25 / 2) ''g'' (3602879701896397 / 2 ^ 55) (3602879701896397 / 2 ^ 54) False) =
        Some (Some (IOError 7), [''A10 0 12.50 g'' @ CRLF, ''A10 1 0.10 g'' @ CRLF])"
      by (simp add: d_def device_def)
  }
  then show "map_option (\<lambda>(e, c). (e, wlog c))
     (SetTarget
        (device [Delivers 1000 (''A10 A'' @ CRLF), Fails 1000 (IOError 7)] Blocks)
        (25 / 2) ''g'' (3602879701896397 / 2 ^ 55) (3602879701896397 / 2 ^ 54) False) =
   Some (Some (IOError 7), [''A10 0 12.50 g'' @ CRLF, ''A10 1 0.10 g'' @ CRLF])" .
  {
    define d where "d = device [Delivers 1000 (''A10 A'' @ CRLF), Delivers 1000 (''A10 A'' @ CRLF)] Blocks
           \<lparr>writes := (\<lambda>k. if k = 2 then Some (IOError 9) else None)\<rparr>"
    have h: "\<forall>(d, r) \<in> set [ack, ack]. length r \<le> 128 \<and> (\<exists>pre post. r = pre @ ''A10 A'' @ post)"
      "delivers (reads d) (nread d) [ack, ack]"
      "\<forall>i<length [ack, ack]. writes d (length (wlog d) + i) = None"
      "length [ack, ack] \<le> 3"
      using ack by (auto simp: d_def device_def script_def ack_def)
    have f: "length [ack, ack] < 3 \<and> writes d (length (wlog d) + length [ack, ack]) = Some (IOError 9)"
      by (simp add: d_def device_def)
    from SetTarget_three_commands[OF h, where e = "IOError 9"] f
    have "SetTarget d (25 / 2) ''g'' (3602879701896397 / 2 ^ 55) (3602879701896397 / 2 ^ 54) False =
         Some (Some (IOError 9),
               d\<lparr>wlog := wlog d @ take (Suc (length [ack, ack]))
                                     [''A10 0 12.50 g'' @ CRLF, ''A10 1 0.10 g'' @ CRLF,
                                      ''A10 2 0.20 g'' @ CRLF],
                 nread := nread d + length [ack, ack], clock := clock d + sum_list (map fst [ack, ack])\<rparr>)"
      by blast
    then have "map_option (\<lambda>(e, c). (e, wlog c))
        (SetTarget d (25 / 2) ''g'' (3602879701896397 / 2 ^ 55) (3602879701896397 / 2 ^ 54) False) =
        Some (Some (IOError 9), [''A10 0 12.50 g'' @ CRLF, ''A10 1 0.10 g'' @ CRLF, ''A10 2 0.20 g'' @ CRLF])"
      by (simp add: d_def device_def)
  }
  then show "map_option (\<lambda>(e, c). (e, wlog c))
     (SetTarget
        (device [Delivers 1000 (''A10 A'' @ CRLF), Delivers 1000 (''A10 A'' @ CRLF)] Blocks
           \<lparr>writes := (\<lambda>k. if k = 2 then Some (IOError 9) else None)\<rparr>)
        (25 / 2) ''g'' (3602879701896397 / 2 ^ 55) (3602879701896397 / 2 ^ 54) False) =
   Some (Some (IOError 9), [''A10 0 12.50 g'' @ CRLF, ''A10 1 0.10 g'' @ CRLF, ''A10 2 0.20 g'' @ CRLF])" .
qed

text \<open>
  C10. Whenever \<open>WeightOnKey\<close> returns an error (from the precondition check, the
  start command, a read or the parsing of a frame), the measurement list it returns
  with it is empty: what the loop had collected is dropped.
\<close>

theorem WeightOnKey_error_empty:
  "WeightOnKey intInf c numMeasurements timeout = Some (Returned (ws, Some e), c') \<Longrightarrow> ws = []"
  by (auto simp: WeightOnKey_def split: if_splits option.splits prod.splits loop_end.splits
      dest: collect_Return)

theorem WeightOnKey_error_empty_witness:
  "(case fst (the (WeightOnKey 0
        (device [Delivers 1000 (''ST A'' @ CRLF), Delivers 1000 (''ST     12.34 g'' @ CRLF),
                 Fails 1000 (IOError 7)] Blocks) 3 0)) of
      Returned (ws, e) \<Rightarrow> e = Some (IOError 7) \<and> ws = []
    | Panicked p \<Rightarrow> False)"
proof -
  define d where "d = device [Delivers 1000 (''ST A'' @ CRLF), Delivers 1000 (''ST     12.34 g'' @ CRLF),
                 Fails 1000 (IOError 7)] Blocks"
  define r where "r = the (WeightOnKey 0 d 3 0)"
  define ws where "ws = (case fst r of Returned (ws, e) \<Rightarrow> ws | Panicked p \<Rightarrow> [\<lparr>mWeight = 0, mUnit = []\<rparr>])"
  have "WeightOnKey 0 d 3 0 = Some (Returned (ws, Some (IOError 7)), snd r)"
    unfolding ws_def r_def d_def
    by (simp add: WeightOnKey_def run_defs weightRegex_def value_unit_def digit_def letter_def
        ParseFloat_def is_digit_def digits_val_def digit_val_def float64_overflow_def)
  from WeightOnKey_error_empty[OF this] this
  show ?thesis
    unfolding d_def[symmetric] by simp
qed

text \<open>
  C5. If every read returns and takes some time, \<open>DirectCommand\<close> returns, and it
  does so less than five seconds (its fixed timeout) plus the latency of the last read
  after it started. Its result is one of three: the buffer, matching the pattern, with
  no error; the buffer, not matching, with the timeout error that names the command,
  the pattern and that buffer, five seconds or more having passed; or no buffer and
  the error of the failed write or of a failed read.
\<close>

theorem DirectCommand_returns:
  assumes "\<forall>k\<ge>nread c. reads c k \<noteq> Blocks \<and> 0 < latency (reads c k)"
  shows "\<exists>r c'. DirectCommand c command regex = Some (r, c')
           \<and> int (clock c') - int (clock c) < 5 * Second + int (latency (reads c (nread c' - 1)))
           \<and> ((\<exists>buf. r = (Some buf, None) \<and> Match regex buf)
                \<or> (\<exists>buf. r = (Some buf, Some (timed_out command regex buf)) \<and> \<not> Match regex buf
                      \<and> 5 * Second \<le> int (clock c') - int (clock c))
                \<or> (\<exists>e. r = (None, Some e)
                      \<and> (writes c (length (wlog c)) = Some e \<or> (\<exists>k d. reads c k = Fails d e))))"
proof (cases "writes c (length (wlog c))")
  case (Some e)
  then have "DirectCommand c command regex = Some ((None, Some e), c\<lparr>wlog := wlog c @ [command @ CRLF]\<rparr>)"
    by (simp add: DirectCommand_def Write_def)
  with Some show ?thesis by (simp add: Second_def)
next
  case None
  define c1 where "c1 = c\<lparr>wlog := wlog c @ [command @ CRLF]\<rparr>"
  have c1: "reads c1 = reads c" "nread c1 = nread c" "clock c1 = clock c"
    by (simp_all add: c1_def)
  have "\<forall>k\<ge>nread c1. reads c1 k \<noteq> Blocks \<and> 0 < latency (reads c1 k)"
    using assms by (simp add: c1)
  from await_returns[OF this, of regex "clock c1" False make_buf]
  obtain y where y: "await regex (clock c1) False make_buf c1 = Some y"
    by blast
  note aw = await_awaited[OF y]
  have s0: "Since c1 (clock c1) = 0"
    by (simp add: Since_def MaxInt64_def)
  have far: "snd y \<noteq> c1"
    using aw s0 by (auto simp: awaited_def Second_def split: sum.splits)
  then have tm: "int (clock (snd y)) - int (clock c) < 5 * Second + int (latency (reads c (nread (snd y) - 1)))"
    using aw by (auto simp: awaited_def c1)
  show ?thesis
  proof (cases "fst y")
    case (Inl e)
    then have "DirectCommand c command regex = Some ((None, Some e), snd y)"
      using None y by (cases y) (simp add: DirectCommand_def Write_def c1_def[symmetric])
    moreover have "\<exists>k d. reads c k = Fails d e"
      using aw Inl by (auto simp: awaited_def c1)
    ultimately show ?thesis using tm by auto
  next
    case (Inr mb)
    then obtain m b where mb: "fst y = Inr (m, b)" by (cases mb) auto
    have m: "m = Match regex b" and late: "m \<or> 5 * Second \<le> Since (snd y) (clock c1)"
      using aw mb far by (auto simp: awaited_def)
    have dc: "DirectCommand c command regex =
        Some (if \<not> m then (Some b, Some (timed_out command regex b)) else (Some b, None), snd y)"
      using None y mb by (cases y) (simp add: DirectCommand_def Write_def c1_def[symmetric])
    show ?thesis
    proof (cases m)
      case True
      with dc m tm show ?thesis by auto
    next
      case False
      with late have "5 * Second \<le> int (clock (snd y)) - int (clock c)"
        by (simp add: Since_def c1)
      with dc m tm False show ?thesis by auto
    qed
  qed
qed

theorem DirectCommand_returns_witness:
  "map_option (\<lambda>(r, c'). (r, clock c'))
     (DirectCommand (device [Delivers 1000 ''zz''] (Delivers 1000000000 [])) ''S'' weightRegexS) =
   Some ((Some (''zz'' @ replicate 126 NUL),
          Some (timed_out ''S'' weightRegexS (''zz'' @ replicate 126 NUL))), 5000001000)"
proof -
  define d where "d = device [Delivers 1000 ''zz''] (Delivers 1000000000 [])"
  have live: "\<forall>k\<ge>nread d. reads d k \<noteq> Blocks \<and> 0 < latency (reads d k)"
    by (simp add: d_def device_def script_def)
  from DirectCommand_returns[OF live, of "''S''" weightRegexS]
  show ?thesis
    unfolding d_def by (simp add: run_defs weightRegexS_def)
qed

text \<open>
  A failed read is an outcome that is neither matching bytes nor a timeout error: no
  bytes are returned, and the error is the read's own, not one built by \<open>timed_out\<close>.
\<close>

theorem DirectCommand_transport_error:
  "map_option fst (DirectCommand (device [Fails 1000 (IOError 7)] Blocks) ''S'' weightRegexS) =
     Some (None, Some (IOError 7))"
  by (simp add: run_defs)

text \<open>
  C1. \<open>DirectCommand\<close> keeps one buffer of 128 bytes. Every read writes its bytes
  over the front of that buffer and leaves the bytes behind them as earlier reads left
  them; the pattern is tested on the whole buffer after every read. So when the write
  succeeds and the reads deliver a run of chunks, each read starting before the five
  seconds are over, and the buffer overlaid with the chunks matches for the first
  time after the last of them, the call returns that overlaid buffer with no error,
  having read exactly these chunks.
\<close>

theorem DirectCommand_overwrites:
  assumes "writes c (length (wlog c)) = None"
    and "delivers (reads c) (nread c) evs" and "evs \<noteq> []"
    and "int (sum_list (map fst (butlast evs))) < 5 * Second"
    and "\<forall>k. 0 < k \<and> k < length evs \<longrightarrow>
           \<not> Match regex (foldl overwrite make_buf (map snd (take k evs)))"
    and "Match regex (foldl overwrite make_buf (map snd evs))"
  shows "DirectCommand c command regex =
           Some ((Some (foldl overwrite make_buf (map snd evs)), None),
                 c\<lparr>wlog := wlog c @ [command @ CRLF], nread := nread c + length evs,
                   clock := clock c + sum_list (map fst evs)\<rparr>)"
proof -
  define c1 where "c1 = c\<lparr>wlog := wlog c @ [command @ CRLF]\<rparr>"
  have "await regex (clock c1) False make_buf c1 =
          Some (Inr (True, foldl overwrite make_buf (map snd evs)),
                c1\<lparr>nread := nread c1 + length evs, clock := clock c1 + sum_list (map fst evs)\<rparr>)"
    by (rule await_chunks) (use assms in \<open>simp_all add: c1_def\<close>)
  then show ?thesis
    using assms(1) by (simp add: DirectCommand_def Write_def c1_def)
qed

theorem DirectCommand_overwrites_witness:
  "map_option (\<lambda>(r, c'). (r, nread c'))
     (DirectCommand (device [Delivers 1000 ''zzzzzzzz'', Delivers 1000 ''ST A''] Blocks)
        ''ST 1'' (lit ''ST A'')) =
   Some ((Some (''ST Azzzz'' @ replicate 120 NUL), None), 2)"
proof -
  define d where "d = device [Delivers 1000 ''zzzzzzzz'', Delivers 1000 ''ST A''] Blocks"
  define evs where "evs = [(1000 :: nat, ''zzzzzzzz''), (1000, ''ST A'')]"
  have 1: "writes d (length (wlog d)) = None" "delivers (reads d) (nread d) evs" "evs \<noteq> []"
    "int (sum_list (map fst (butlast evs))) < 5 * Second"
    by (simp_all add: d_def evs_def device_def script_def Second_def)
  have 2: "\<forall>k. 0 < k \<and> k < length evs \<longrightarrow>
           \<not> Match (lit ''ST A'') (foldl overwrite make_buf (map snd (take k evs)))"
  proof (intro allI impI)
    fix k assume "0 < k \<and> k < length evs"
    then have "k = 1" by (simp add: evs_def)
    then show "\<not> Match (lit ''ST A'') (foldl overwrite make_buf (map snd (take k evs)))"
      by (simp add: evs_def run_defs)
  qed
  have 3: "Match (lit ''ST A'') (foldl overwrite make_buf (map snd evs))"
    by (simp add: evs_def run_defs)
  have 4: "nread d = 0"
    by (simp add: d_def device_def)
  from DirectCommand_overwrites[OF 1 2 3, of "''ST 1''"] 4
  show ?thesis
    unfolding d_def[symmetric] by (simp add: evs_def make_buf_def overwrite_def CRLF_def)
qed

text \<open>
  A response split over two reads is not put together again: the second part lands
  on top of the first, and the call times out although the two parts concatenated
  match the pattern.
\<close>

theorem DirectCommand_split_response_lost:
  "Match (lit ''ST A'') (''ST'' @ '' A'' @ CRLF)
   \<and> map_option fst
       (DirectCommand (device [Delivers 1000 ''ST'', Delivers 1000 ('' A'' @ CRLF)]
                         (Delivers 1000000000 []))
          ''ST 1'' (lit ''ST A'')) =
     Some (Some ('' A'' @ CRLF @ replicate 124 NUL),
           Some (timed_out ''ST 1'' (lit ''ST A'') ('' A'' @ CRLF @ replicate 124 NUL)))"
  by (simp add: run_defs)

text \<open>
  C8. Take a toggle operation (power on, power off, close all doors, open the right
  door, open the left door) on a connection whose write succeeds and whose next read
  delivers a reply. The operation returns success on that reply exactly when the
  reply carries the verb followed by a space and the letter \<^verbatim>\<open>A\<close> or the letter
  \<^verbatim>\<open>L\<close>; no other reply is taken as a match.
\<close>

theorem toggles_accept_A_and_L:
  assumes "writes c (length (wlog c)) = None"
    and "reads c (nread c) = Delivers d reply" and "length reply \<le> 128"
  shows "(PowerOn c = Some (None, replied c ''PWR 1'' d) \<longleftrightarrow>
            (\<exists>pre x post. reply = pre @ ''PWR '' @ x # post \<and> (x = CHR ''A'' \<or> x = CHR ''L'')))
       \<and> (PowerOff c = Some (None, replied c ''PWR 0'' d) \<longleftrightarrow>
            (\<exists>pre x post. reply = pre @ ''PWR '' @ x # post \<and> (x = CHR ''A'' \<or> x = CHR ''L'')))
       \<and> (CloseAllDoors c = Some (None, replied c ''WS 0'' d) \<longleftrightarrow>
            (\<exists>pre x post. reply = pre @ ''WS '' @ x # post \<and> (x = CHR ''A'' \<or> x = CHR ''L'')))
       \<and> (OpenRightDoor c = Some (None, replied c ''WS 1'' d) \<longleftrightarrow>
            (\<exists>pre x post. reply = pre @ ''WS '' @ x # post \<and> (x = CHR ''A'' \<or> x = CHR ''L'')))
       \<and> (OpenLeftDoor c = Some (None, replied c ''WS 2'' d) \<longleftrightarrow>
            (\<exists>pre x post. reply = pre @ ''WS '' @ x # post \<and> (x = CHR ''A'' \<or> x = CHR ''L'')))"
  unfolding PowerOn_def PowerOff_def CloseAllDoors_def OpenRightDoor_def OpenLeftDoor_def
    powerRegex_def doorRegex_def
  by (intro conjI acked_first_reply[OF assms]) simp_all

theorem toggles_accept_A_and_L_witness:
  "map_option fst (PowerOn (device [Delivers 1000 (''PWR L'' @ CRLF)] Blocks)) = Some None
   \<and> map_option fst (OpenLeftDoor (device [Delivers 1000 (''WS A'' @ CRLF)] Blocks)) = Some None
   \<and> CloseAllDoors (device [Delivers 1000 (''WS I'' @ CRLF)] Blocks) \<noteq>
       Some (None, replied (device [Delivers 1000 (''WS I'' @ CRLF)] Blocks) ''WS 0'' 1000)"
proof (intro conjI)
  define c where "c = device [Delivers 1000 (''PWR L'' @ CRLF)] Blocks"
  have h: "writes c (length (wlog c)) = None" "reads c (nread c) = Delivers 1000 (''PWR L'' @ CRLF)"
    "length (''PWR L'' @ CRLF) \<le> 128"
    by (simp_all add: c_def device_def script_def CRLF_def)
  have "''PWR L'' @ CRLF = [] @ ''PWR '' @ CHR ''L'' # CRLF \<and> (CHR ''L'' = CHR ''A'' \<or> CHR ''L'' = CHR ''L'')"
    by simp
  then have "\<exists>pre x post. ''PWR L'' @ CRLF = pre @ ''PWR '' @ x # post \<and> (x = CHR ''A'' \<or> x = CHR ''L'')"
    by blast
  with toggles_accept_A_and_L[OF h] have "PowerOn c = Some (None, replied c ''PWR 1'' 1000)"
    by blast
  then show "map_option fst (PowerOn (device [Delivers 1000 (''PWR L'' @ CRLF)] Blocks)) = Some None"
    by (simp add: c_def)
next
  define c where "c = device [Delivers 1000 (''WS A'' @ CRLF)] Blocks"
  have h: "writes c (length (wlog c)) = None" "reads c (nread c) = Delivers 1000 (''WS A'' @ CRLF)"
    "length (''WS A'' @ CRLF) \<le> 128"
    by (simp_all add: c_def device_def script_def CRLF_def)
  have "''WS A'' @ CRLF = [] @ ''WS '' @ CHR ''A'' # CRLF \<and> (CHR ''A'' = CHR ''A'' \<or> CHR ''A'' = CHR ''L'')"
    by simp
  then have "\<exists>pre x post. ''WS A'' @ CRLF = pre @ ''WS '' @ x # post \<and> (x = CHR ''A'' \<or> x = CHR ''L'')"
    by blast
  with toggles_accept_A_and_L[OF h] have "OpenLeftDoor c = Some (None, replied c ''WS 2'' 1000)"
    by blast
  then show "map_option fst (OpenLeftDoor (device [Delivers 1000 (''WS A'' @ CRLF)] Blocks)) = Some None"
    by (simp add: c_def)
next
  define c where "c = device [Delivers 1000 (''WS I'' @ CRLF)] Blocks"
  have h: "writes c (length (wlog c)) = None" "reads c (nread c) = Delivers 1000 (''WS I'' @ CRLF)"
    "length (''WS I'' @ CRLF) \<le> 128"
    by (simp_all add: c_def device_def script_def CRLF_def)
  have "\<not> (\<exists>pre x post. ''WS I'' @ CRLF = pre @ ''WS '' @ x # post \<and> (x = CHR ''A'' \<or> x = CHR ''L''))"
    by (auto simp: CRLF_def append_eq_Cons_conv Cons_eq_append_conv)
  with toggles_accept_A_and_L[OF h] have "CloseAllDoors c \<noteq> Some (None, replied c ''WS 0'' 1000)"
    by blast
  then show "CloseAllDoors (device [Delivers 1000 (''WS I'' @ CRLF)] Blocks) \<noteq>
       Some (None, replied (device [Delivers 1000 (''WS I'' @ CRLF)] Blocks) ''WS 0'' 1000)"
    by (simp add: c_def)
qed

text \<open>
  C9. In \<open>Weight\<close> and \<open>Tare\<close>, whenever \<open>DirectCommand\<close> succeeds, the buffer it
  returns has three submatches (so the indices 1 and 2 are in range), the first
  capture is not empty and \<open>ParseFloat\<close> accepts it, and the operation returns the
  measurement with no error: neither the parse-error return nor a panic is reached.
\<close>

theorem Weight_Tare_never_fail_to_parse:
  "(DirectCommand c ''S'' weightRegexS = Some ((b, None), c') \<longrightarrow>
      (\<exists>buf whole num u w.
         b = Some buf \<and> FindStringSubmatch weightRegexS buf = [whole, num, u]
         \<and> num \<noteq> [] \<and> u \<noteq> [] \<and> ParseFloat num = Inr w
         \<and> Weight c = Some (Returned (\<lparr>mWeight = w, mUnit = u\<rparr>, None), c')))
   \<and> (DirectCommand c ''T'' tareRegex = Some ((b, None), c') \<longrightarrow>
      (\<exists>buf whole num u w.
         b = Some buf \<and> FindStringSubmatch tareRegex buf = [whole, num, u]
         \<and> num \<noteq> [] \<and> u \<noteq> [] \<and> ParseFloat num = Inr w
         \<and> Tare c = Some (Returned (\<lparr>mWeight = w, mUnit = u\<rparr>, None), c')))"
  unfolding Weight_def Tare_def weightRegexS_def tareRegex_def
  by (blast dest: measure_cmd_never_fails)

theorem Weight_Tare_never_fail_to_parse_witness:
  "map_option fst (Weight (device [Delivers 1000 (''S S     12.34 g'' @ CRLF)] Blocks)) =
     Some (Returned (\<lparr>mWeight = 1234 / 100, mUnit = ''g''\<rparr>, None))
   \<and> map_option fst (Tare (device [Delivers 1000 (''T S     -0.02 kg'' @ CRLF)] Blocks)) =
     Some (Returned (\<lparr>mWeight = - 2 / 100, mUnit = ''kg''\<rparr>, None))"
proof (intro conjI)
  define d where "d = device [Delivers 1000 (''S S     12.34 g'' @ CRLF)] Blocks"
  define r where "r = the (DirectCommand d ''S'' weightRegexS)"
  have dc: "DirectCommand d ''S'' weightRegexS = Some ((fst (fst r), None), snd r)"
    unfolding r_def d_def by (simp add: run_defs weightRegexS_def parse_defs)
  from Weight_Tare_never_fail_to_parse[of d "fst (fst r)" "snd r"] dc
  obtain buf whole num u w where "fst (fst r) = Some buf"
    "FindStringSubmatch weightRegexS buf = [whole, num, u]" "ParseFloat num = Inr w"
    "Weight d = Some (Returned (\<lparr>mWeight = w, mUnit = u\<rparr>, None), snd r)"
    by blast
  moreover have "fst (fst r) = Some (''S S     12.34 g'' @ CRLF @ replicate 111 NUL)"
    unfolding r_def d_def by (simp add: run_defs weightRegexS_def parse_defs)
  moreover have "FindStringSubmatch weightRegexS (''S S     12.34 g'' @ CRLF @ replicate 111 NUL)
      = [''S S     12.34 g'', ''12.34'', ''g'']"
    by (simp add: run_defs weightRegexS_def parse_defs)
  moreover have "ParseFloat ''12.34'' = Inr (1234 / 100)"
    by (simp add: parse_defs in_range_def)
  ultimately show "map_option fst (Weight (device [Delivers 1000 (''S S     12.34 g'' @ CRLF)] Blocks)) =
     Some (Returned (\<lparr>mWeight = 1234 / 100, mUnit = ''g''\<rparr>, None))"
    unfolding d_def[symmetric] by simp
next
  define d where "d = device [Delivers 1000 (''T S     -0.02 kg'' @ CRLF)] Blocks"
  define r where "r = the (DirectCommand d ''T'' tareRegex)"
  have dc: "DirectCommand d ''T'' tareRegex = Some ((fst (fst r), None), snd r)"
    unfolding r_def d_def by (simp add: run_defs tareRegex_def parse_defs)
  from Weight_Tare_never_fail_to_parse[of d "fst (fst r)" "snd r"] dc
  obtain buf whole num u w where "fst (fst r) = Some buf"
    "FindStringSubmatch tareRegex buf = [whole, num, u]" "ParseFloat num = Inr w"
    "Tare d = Some (Returned (\<lparr>mWeight = w, mUnit = u\<rparr>, None), snd r)"
    by blast
  moreover have "fst (fst r) = Some (''T S     -0.02 kg'' @ CRLF @ replicate 110 NUL)"
    unfolding r_def d_def by (simp add: run_defs tareRegex_def parse_defs)
  moreover have "FindStringSubmatch tareRegex (''T S     -0.02 kg'' @ CRLF @ replicate 110 NUL)
      = [''T S     -0.02 kg'', ''-0.02'', ''kg'']"
    by (simp add: run_defs tareRegex_def parse_defs)
  moreover have "ParseFloat ''-0.02'' = Inr (- 2 / 100)"
    by (simp add: parse_defs in_range_def)
  ultimately show "map_option fst (Tare (device [Delivers 1000 (''T S     -0.02 kg'' @ CRLF)] Blocks)) =
     Some (Returned (\<lparr>mWeight = - 2 / 100, mUnit = ''kg''\<rparr>, None))"
    unfolding d_def[symmetric] by simp
qed

text \<open>
  C7. \<open>WeightOnKey\<close> takes a measurement after every read that leaves its buffer
  matching the measurement pattern; the buffer holds the bytes of that read over what
  earlier reads left, so it is reads with a matching buffer that are counted, whether
  or not the read brought a new frame. Let the target count \<open>n\<close> be positive and the
  timeout zero (unbounded). After the start command is acknowledged, let the reads
  deliver a run of chunks of which exactly \<open>n\<close> leave the buffer matching, the last
  chunk being the \<open>n\<close>-th of them, each read starting within the \<open>2^63 - 1\<close>
  nanoseconds that stand for no timeout; whatever the device sends afterwards, let the
  stop command return. Then \<open>WeightOnKey\<close> returns exactly \<open>n\<close> measurements and no
  error; its loop has consumed exactly that run of reads, and the stop command is
  issued right after it, so that the commands written are the start command and the
  stop command.
\<close>

theorem WeightOnKey_collects_n:
  assumes n: "0 < n"
    and start: "DirectCommand c ''ST 1'' (lit ''ST A'') = Some ((b, None), c1)"
    and rd: "delivers (reads c1) (nread c1) evs"
    and tm: "int (sum_list (map fst (butlast evs))) < MaxInt64"
    and cnt: "int (matching_reads make_buf (map snd evs)) = n"
    and lst: "int (matching_reads make_buf (map snd (butlast evs))) < n"
    and stop: "DirectCommand
                 (c1\<lparr>nread := nread c1 + length evs, clock := clock c1 + sum_list (map fst evs)\<rparr>)
                 ''ST 0'' stopRegex = Some (r, c3)"
  shows "\<exists>ws. WeightOnKey intInf c n 0 = Some (Returned (ws, None), c3)
           \<and> int (length ws) = n
           \<and> wlog c3 = wlog c @ [''ST 1'' @ CRLF, ''ST 0'' @ CRLF]"
proof -
  define c2 where "c2 = c1\<lparr>nread := nread c1 + length evs, clock := clock c1 + sum_list (map fst evs)\<rparr>"
  have "\<exists>ws'. collect n MaxInt64 (clock c1) 0 [] make_buf c1 = Some (Fallthrough ([] @ ws'), c2)
      \<and> length ws' = matching_reads make_buf (map snd evs)"
    unfolding c2_def
    by (rule collect_chunks) (use rd tm cnt lst in \<open>simp_all add: make_buf_def\<close>)
  then obtain ws where loop: "collect n MaxInt64 (clock c1) 0 [] make_buf c1 = Some (Fallthrough ws, c2)"
    and len: "length ws = matching_reads make_buf (map snd evs)"
    by auto
  have "WeightOnKey intInf c n 0 = Some (Returned (ws, None), c3)"
    using n start loop stop by (simp add: WeightOnKey_def c2_def)
  moreover have "wlog c3 = wlog c @ [''ST 1'' @ CRLF, ''ST 0'' @ CRLF]"
    using DirectCommand_wlog[OF start] DirectCommand_wlog[OF stop] by simp
  ultimately show ?thesis using len cnt by simp
qed

theorem WeightOnKey_collects_n_witness:
  "map_option (\<lambda>(r, c). (r, wlog c, nread c))
     (WeightOnKey 0
        (device [Delivers 1000 (''ST A'' @ CRLF),
                 Delivers 1000 (''ST     12.34 g'' @ CRLF), Delivers 1000 (''ST     12.35 g'' @ CRLF),
                 Delivers 1000 (''ST     12.36 g'' @ CRLF), Delivers 1000 (''ST     12.37 g'' @ CRLF),
                 Delivers 1000 (''ST     12.38 g'' @ CRLF), Delivers 1000 (''ST A'' @ CRLF)] Blocks)
        3 0) =
   Some (Returned ([\<lparr>mWeight = 1234 / 100, mUnit = ''g''\<rparr>, \<lparr>mWeight = 1235 / 100, mUnit = ''g''\<rparr>,
                    \<lparr>mWeight = 1236 / 100, mUnit = ''g''\<rparr>], None),
         [''ST 1'' @ CRLF, ''ST 0'' @ CRLF], 7)"
proof -
  define d where "d = device [Delivers 1000 (''ST A'' @ CRLF),
                 Delivers 1000 (''ST     12.34 g'' @ CRLF), Delivers 1000 (''ST     12.35 g'' @ CRLF),
                 Delivers 1000 (''ST     12.36 g'' @ CRLF), Delivers 1000 (''ST     12.37 g'' @ CRLF),
                 Delivers 1000 (''ST     12.38 g'' @ CRLF), Delivers 1000 (''ST A'' @ CRLF)] Blocks"
  define evs where "evs = [(1000 :: nat, ''ST     12.34 g'' @ CRLF), (1000, ''ST     12.35 g'' @ CRLF),
                 (1000, ''ST     12.36 g'' @ CRLF)]"
  define r1 where "r1 = the (DirectCommand d ''ST 1'' (lit ''ST A''))"
  define c2 where "c2 = (snd r1)\<lparr>nread := nread (snd r1) + length evs,
      clock := clock (snd r1) + sum_list (map fst evs)\<rparr>"
  define r3 where "r3 = the (DirectCommand c2 ''ST 0'' stopRegex)"
  have 1: "DirectCommand d ''ST 1'' (lit ''ST A'') = Some ((fst (fst r1), None), snd r1)"
    unfolding r1_def d_def by (simp add: run_defs)
  have c1: "reads (snd r1) = reads d" "nread (snd r1) = 1"
    unfolding r1_def d_def by (simp_all add: run_defs)
  have 2: "delivers (reads (snd r1)) (nread (snd r1)) evs"
    unfolding c1 by (simp add: evs_def d_def device_def script_def)
  have 3: "int (sum_list (map fst (butlast evs))) < MaxInt64"
    by (simp add: evs_def MaxInt64_def)
  have 4: "int (matching_reads make_buf (map snd evs)) = 3"
    by (simp add: evs_def run_defs parse_defs weightRegex_def)
  have 5: "int (matching_reads make_buf (map snd (butlast evs))) < 3"
    by (simp add: evs_def run_defs parse_defs weightRegex_def)
  have 6: "DirectCommand c2 ''ST 0'' stopRegex = Some (fst r3, snd r3)"
    unfolding r3_def c2_def r1_def d_def evs_def by (simp add: run_defs stopRegex_def AL_def)
  from WeightOnKey_collects_n[OF _ 1 2 3 4 5 6[unfolded c2_def], of 0]
  obtain ws where w: "WeightOnKey 0 d 3 0 = Some (Returned (ws, None), snd r3)"
    and "int (length ws) = 3" "wlog (snd r3) = wlog d @ [''ST 1'' @ CRLF, ''ST 0'' @ CRLF]"
    by auto
  have E: "map_option (\<lambda>(r, c). (r, wlog c, nread c)) (WeightOnKey 0 d 3 0) =
   Some (Returned ([\<lparr>mWeight = 1234 / 100, mUnit = ''g''\<rparr>, \<lparr>mWeight = 1235 / 100, mUnit = ''g''\<rparr>,
                    \<lparr>mWeight = 1236 / 100, mUnit = ''g''\<rparr>], None),
         [''ST 1'' @ CRLF, ''ST 0'' @ CRLF], 7)"
    unfolding d_def by (simp add: WeightOnKey_def run_defs parse_defs weightRegex_def stopRegex_def AL_def)
  from w E show ?thesis
    unfolding d_def by fast
qed

text \<open>
  The count does not go up on frames only. Here the device sends three frames, the
  second split over two reads. With a target of two, the first part of the second
  frame lands on the first frame without breaking it, the buffer matches again, and
  the first frame is taken a second time; the loop ends there, having read one whole
  frame, and the two measurements returned are both the first frame.
\<close>

theorem WeightOnKey_counts_frame_twice:
  "map_option fst
     (WeightOnKey 0
        (device [Delivers 1000 (''ST A'' @ CRLF),
                 Delivers 1000 (''ST    12.34 g'' @ CRLF),
                 Delivers 1000 ''ST  '', Delivers 1000 (''  12.35 g'' @ CRLF),
                 Delivers 1000 (''ST    12.36 g'' @ CRLF),
                 Delivers 1000 (''ST A'' @ CRLF)] Blocks)
        2 0) =
   Some (Returned ([\<lparr>mWeight = 1234 / 100, mUnit = ''g''\<rparr>,
                    \<lparr>mWeight = 1234 / 100, mUnit = ''g''\<rparr>], None))"
  by (simp add: WeightOnKey_def run_defs parse_defs weightRegex_def stopRegex_def AL_def)

end
